theory Spec2Isabelle
  imports Complex_Main
begin

section \<open>The grammar tree and the scorer (external collaborators)\<close>

text \<open>
  Modelled from the spec: the class \<open>GrammarNode\<close> of \<open>grammar_tree.py\<close>, which
  \<open>mcts.py\<close> imports and never changes. A node carries what the capability interface
  of the spec exposes: the rendered text (\<open>str(node)\<close>), \<open>is_terminal()\<close>,
  \<open>is_dead_end()\<close> and the ordered \<open>children()\<close>. The two flags are independent of the
  child list, so that a non-terminal node without children is a value of the type.
  \<open>random_child()\<close> and \<open>estimate_mean_depth()\<close> are random in the source; they are
  parameters of the functions that call them.
\<close>

datatype gnode =
  GNode (g_text: string) (g_terminal: bool) (g_dead_end: bool) (g_children: "gnode list")

text \<open>The exceptions the module can raise, as values.\<close>

datatype error =
    AssertionError string
  | AttributeError string
  | ValueError string
  | ZeroDivisionError
  | OverflowError string
  | UnboundLocalError string

section \<open>CounterNode\<close>

text \<open>
  A \<open>CounterNode\<close> object lives in a store: a list of records, a reference being the
  index of the object. \<open>parent\<close> and \<open>_children\<close> hold references, \<open>None\<close> being
  Python's \<open>None\<close>. Visit counts are Python integers; rewards and their sums are Python
  floats, idealised as reals.
\<close>

type_synonym ref = nat

record cnode =
  reference_node :: gnode
  children_field :: "ref list option"
  parent :: "ref option"
  is_terminal_field :: bool
  count :: int
  sum_rewards :: real
  sum_of_square_rewards :: real
  top_reward :: real
  top_leaf_node :: "gnode option"
  freeze :: bool
  solved :: bool

type_synonym heap = "cnode list"

definition new_cnode :: "gnode \<Rightarrow> ref option \<Rightarrow> cnode" where
  "new_cnode g p =
     \<lparr> reference_node = g, children_field = None, parent = p, is_terminal_field = True,
       count = 0, sum_rewards = 0, sum_of_square_rewards = 0, top_reward = - 1,
       top_leaf_node = None, freeze = False, solved = False \<rparr>"

text \<open>
  \<open>expand\<close>: the assertion on the wrapped node, then one fresh object per child of the
  wrapped node, in order, allocated at the end of the store.
\<close>

definition expand :: "heap \<Rightarrow> ref \<Rightarrow> error + heap" where
  "expand h n =
     (if g_terminal (reference_node (h ! n))
      then Inl (AssertionError ''Try to expand a terminal node'')
      else
        let kids = g_children (reference_node (h ! n));
            refs = [length h ..< length h + length kids];
            h1 = h @ map (\<lambda>child_node. new_cnode child_node (Some n)) kids
        in Inr (h1[n := (h1 ! n)\<lparr> children_field := Some refs, is_terminal_field := False \<rparr>]))"

text \<open>
  \<open>children\<close>: \<open>assert self._children\<close> fails on \<open>None\<close> and on the empty list, both
  being false in Python.
\<close>

definition not_expanded_yet :: error where
  "not_expanded_yet =
     AssertionError
       ''Try to access children but the current counter node has not been expanded yet''"

definition children :: "heap \<Rightarrow> ref \<Rightarrow> error + ref list" where
  "children h n =
     (case children_field (h ! n) of
        None \<Rightarrow> Inl not_expanded_yet
      | Some [] \<Rightarrow> Inl not_expanded_yet
      | Some (c # cs) \<Rightarrow> Inr (c # cs))"

definition is_terminal :: "heap \<Rightarrow> ref \<Rightarrow> bool" where
  "is_terminal h n = is_terminal_field (h ! n)"

text \<open>
  \<open>backpropagate\<close> recurses along the parent references. Nothing in its text bounds the
  recursion, so it is a partial function: \<open>None\<close> is a call that does not return.
\<close>

partial_function (option) backpropagate :: "heap \<Rightarrow> ref \<Rightarrow> real \<Rightarrow> gnode \<Rightarrow> heap option" where
  "backpropagate h n new_reward leaf =
     (if freeze (h ! n) then Some h
      else
        let h1 = h[n := (h ! n)\<lparr> sum_rewards := sum_rewards (h ! n) + new_reward \<rparr>];
            h2 = h1[n := (h1 ! n)\<lparr> sum_of_square_rewards :=
                                     sum_of_square_rewards (h1 ! n) + new_reward ^ 2 \<rparr>];
            h3 = (if new_reward > top_reward (h2 ! n)
                  then h2[n := (h2 ! n)\<lparr> top_reward := new_reward, top_leaf_node := Some leaf \<rparr>]
                  else h2)
        in case parent (h3 ! n) of
             None \<Rightarrow> Some h3
           | Some p \<Rightarrow> backpropagate h3 p new_reward leaf)"

text \<open>
  \<open>set_as_solved\<close>: the loop over the brothers returns at the first unsolved one.
\<close>

partial_function (option) set_as_solved :: "heap \<Rightarrow> ref \<Rightarrow> (error + heap) option" where
  "set_as_solved h n =
     (let h1 = h[n := (h ! n)\<lparr> solved := True \<rparr>]
      in case parent (h1 ! n) of
           None \<Rightarrow> Some (Inr h1)
         | Some p \<Rightarrow>
             if freeze (h1 ! p) then Some (Inr h1)
             else (case children h1 p of
                     Inl e \<Rightarrow> Some (Inl e)
                   | Inr brothers \<Rightarrow>
                       if \<exists>brother \<in> set brothers. \<not> solved (h1 ! brother)
                       then Some (Inr h1)
                       else set_as_solved h1 p))"

section \<open>Python numbers in the distributor\<close>

text \<open>
  The quota of the distributor is a Python \<open>int\<close> under one strategy and a Python
  \<open>float\<close> under the other. A \<open>float\<close> is an IEEE 754 binary64 number: a finite one is
  modelled by its value, a real, and the two infinities are values of their own (no
  operation below produces a NaN). \<open>double_round\<close> is rounding to the nearest binary64
  number, ties to the even significand: around a number of binary exponent \<open>e\<close> the
  binary64 numbers are spaced by \<open>2 ^ (e - 52)\<close>, and by \<open>2 ^ (- 1074)\<close> below
  \<open>2 ^ (- 1022)\<close>. A result of magnitude \<open>2 ^ 1024\<close> or more after rounding is an
  overflow.
\<close>

datatype number = Finite real | PlusInfinity | MinusInfinity

definition round_half_even :: "real \<Rightarrow> int" where
  "round_half_even x =
     (let f = \<lfloor>x\<rfloor>; r = x - of_int f
      in if r < 1 / 2 then f
         else if 1 / 2 < r then f + 1
         else if even f then f else f + 1)"

definition double_ulp :: "real \<Rightarrow> real" where
  "double_ulp x = 2 powr (of_int (max \<lfloor>log 2 \<bar>x\<bar>\<rfloor> (- 1022)) - 52)"

definition double_round :: "real \<Rightarrow> real" where
  "double_round x =
     (if x = 0 then 0 else of_int (round_half_even (x / double_ulp x)) * double_ulp x)"

text \<open>The result of a float operation whose exact value is \<open>x\<close>.\<close>

definition to_double :: "real \<Rightarrow> number" where
  "to_double x =
     (let y = double_round x
      in if 2 ^ 1024 \<le> y then PlusInfinity
         else if y \<le> - (2 ^ 1024) then MinusInfinity
         else Finite y)"

text \<open>
  The conversion of an \<open>int\<close> operand to \<open>float\<close>, which raises \<open>OverflowError\<close>; the
  division of two floats, which raises \<open>ZeroDivisionError\<close>; the product with the float
  literal \<open>1.2\<close>; and the comparison \<open>n >= x\<close> of an \<open>int\<close> with a number, which Python
  decides on the exact values.
\<close>

definition float_of_int :: "int \<Rightarrow> error + real" where
  "float_of_int n =
     (let y = double_round (of_int n)
      in if 2 ^ 1024 \<le> \<bar>y\<bar> then Inl (OverflowError ''int too large to convert to float'')
         else Inr y)"

definition float_truediv :: "real \<Rightarrow> real \<Rightarrow> error + number" where
  "float_truediv x y = (if y = 0 then Inl ZeroDivisionError else Inr (to_double (x / y)))"

definition times_1_2 :: "number \<Rightarrow> number" where
  "times_1_2 x =
     (case x of
        Finite v \<Rightarrow> to_double (v * double_round (12 / 10))
      | PlusInfinity \<Rightarrow> PlusInfinity
      | MinusInfinity \<Rightarrow> MinusInfinity)"

definition int_ge :: "int \<Rightarrow> number \<Rightarrow> bool" where
  "int_ge n x =
     (case x of
        Finite v \<Rightarrow> v \<le> of_int n
      | PlusInfinity \<Rightarrow> False
      | MinusInfinity \<Rightarrow> True)"

section \<open>RessourceDistributor\<close>

text \<open>
  The attribute \<open>ressources_to_consume_at_current_depth\<close> is assigned in the two named
  branches of the constructor only; \<open>None\<close> is the attribute never assigned. The result of
  \<open>tree_root.estimate_mean_depth(nb_samples=50)\<close> is the parameter \<open>average_depth\<close>,
  the value of a finite float. \<open>uniform_quota\<close> is the expression
  \<open>self.ressources_to_consume / average_depth * 1.2\<close>.
\<close>

record distributor =
  strategy :: string
  ressources_to_consume :: int
  ressources_to_consume_at_current_depth :: "number option"
  current_depth :: int
  ressources_already_consumed :: int
  ressources_already_consumed_at_current_depth :: int

definition reset :: "distributor \<Rightarrow> distributor" where
  "reset d = d\<lparr> current_depth := 1, ressources_already_consumed := 0,
                ressources_already_consumed_at_current_depth := 0 \<rparr>"

definition uniform_quota :: "int \<Rightarrow> real \<Rightarrow> error + number" where
  "uniform_quota ressources average_depth =
     (case float_of_int ressources of
        Inl e \<Rightarrow> Inl e
      | Inr x \<Rightarrow>
          (case float_truediv x average_depth of
             Inl e \<Rightarrow> Inl e
           | Inr q \<Rightarrow> Inr (times_1_2 q)))"

definition distributor_init :: "string \<Rightarrow> real \<Rightarrow> int \<Rightarrow> error + distributor" where
  "distributor_init strategy_arg average_depth ressources =
     (let strat = (if strategy_arg \<noteq> [] then strategy_arg else ''ALL_FROM_ROOT'');
          d = \<lparr> strategy = strat, ressources_to_consume = ressources,
                ressources_to_consume_at_current_depth = None,
                current_depth = 0, ressources_already_consumed = 0,
                ressources_already_consumed_at_current_depth = 0 \<rparr>
      in if strat = ''ALL_FROM_ROOT''
         then Inr (reset (d\<lparr> ressources_to_consume_at_current_depth :=
                                Some (Finite (of_int ressources)) \<rparr>))
         else if strat = ''UNIFORM''
         then (case uniform_quota ressources average_depth of
                 Inl e \<Rightarrow> Inl e
               | Inr quota \<Rightarrow>
                   Inr (reset (d\<lparr> ressources_to_consume_at_current_depth := Some quota \<rparr>)))
         else Inr (reset d))"

definition set_new_position :: "distributor \<Rightarrow> int \<Rightarrow> distributor" where
  "set_new_position d depth =
     d\<lparr> current_depth := depth, ressources_already_consumed_at_current_depth := 0 \<rparr>"

definition consume_one_unit :: "distributor \<Rightarrow> distributor" where
  "consume_one_unit d =
     d\<lparr> ressources_already_consumed := ressources_already_consumed d + 1,
        ressources_already_consumed_at_current_depth :=
          ressources_already_consumed_at_current_depth d + 1 \<rparr>"

definition still_has_ressources :: "distributor \<Rightarrow> bool" where
  "still_has_ressources d \<longleftrightarrow> ressources_already_consumed d < ressources_to_consume d"

definition should_go_down_into_the_tree :: "distributor \<Rightarrow> error + bool" where
  "should_go_down_into_the_tree d =
     (if strategy d = ''ALL_FROM_ROOT'' then Inr False
      else case ressources_to_consume_at_current_depth d of
             None \<Rightarrow> Inl (AttributeError ''ressources_to_consume_at_current_depth'')
           | Some quota \<Rightarrow>
               Inr (int_ge (ressources_already_consumed_at_current_depth d) quota))"

text \<open>
  The calls a client can make on a distributor between two queries, and the units
  consumed at the current depth after a sequence of them: the number of
  \<open>consume_one_unit\<close> calls made since the last \<open>set_new_position\<close>.
\<close>

datatype distributor_call = Consume_one_unit | Set_new_position int

fun apply_call :: "distributor_call \<Rightarrow> distributor \<Rightarrow> distributor" where
  "apply_call Consume_one_unit d = consume_one_unit d"
| "apply_call (Set_new_position depth) d = set_new_position d depth"

definition units_at_depth :: "distributor_call list \<Rightarrow> int" where
  "units_at_depth calls = int (length (takeWhile (\<lambda>c. c = Consume_one_unit) (rev calls)))"

section \<open>EvalBuffer\<close>

text \<open>
  \<open>lm_scorer.compute_score\<close> is the field \<open>lm_scorer\<close>, a function from the batch of
  texts to the batch of scores. \<open>scorer_calls\<close> is not a field of the source: it records
  the argument of every call made to the scorer, in order.
\<close>

record evalbuffer =
  lm_scorer :: "string list \<Rightarrow> real list"
  buffer_size :: int
  buffer :: "(gnode \<times> ref) list"
  results :: "(real \<times> gnode \<times> ref) list"
  best_sentence :: string
  best_score :: real
  score_history :: "real list"
  scorer_calls :: "string list list"

definition evalbuffer_init :: "int \<Rightarrow> (string list \<Rightarrow> real list) \<Rightarrow> evalbuffer" where
  "evalbuffer_init bsize scorer =
     \<lparr> lm_scorer = scorer, buffer_size = bsize, buffer = [], results = [],
       best_sentence = [], best_score = - 1, score_history = [], scorer_calls = [] \<rparr>"

text \<open>The body of the loop of \<open>force_eval\<close> over \<open>zip(scores, self.buffer)\<close>.\<close>

definition record_score :: "real \<times> gnode \<times> ref \<Rightarrow> evalbuffer \<Rightarrow> evalbuffer" where
  "record_score entry eb =
     (case entry of (score, leaf, frontier_counter_node) \<Rightarrow>
        let eb1 = eb\<lparr> results := results eb @ [(score, leaf, frontier_counter_node)] \<rparr>
        in if score > best_score eb1
           then eb1\<lparr> best_score := score, best_sentence := g_text leaf \<rparr>
           else eb1)"

definition force_eval :: "evalbuffer \<Rightarrow> evalbuffer" where
  "force_eval eb =
     (if length (buffer eb) = 0 then eb
      else
        let texts = map (\<lambda>(grammar_leaf, _). g_text grammar_leaf) (buffer eb);
            scores = lm_scorer eb texts;
            eb1 = eb\<lparr> scorer_calls := scorer_calls eb @ [texts] \<rparr>;
            eb2 = eb1\<lparr> score_history := score_history eb1 @ scores \<rparr>;
            eb3 = fold record_score (zip scores (buffer eb2)) eb2
        in eb3\<lparr> buffer := [] \<rparr>)"

definition add :: "evalbuffer \<Rightarrow> ref \<Rightarrow> gnode \<Rightarrow> evalbuffer" where
  "add eb frontier_counter_node leaf =
     (let eb1 = (if g_dead_end leaf
                 then eb\<lparr> results := results eb @ [(0, leaf, frontier_counter_node)] \<rparr>
                 else eb\<lparr> buffer := buffer eb @ [(leaf, frontier_counter_node)] \<rparr>)
      in if int (length (buffer eb1)) = buffer_size eb1 then force_eval eb1 else eb1)"

definition pop_results :: "evalbuffer \<Rightarrow> (real \<times> gnode \<times> ref) list \<times> evalbuffer" where
  "pop_results eb = (results eb, eb\<lparr> results := [] \<rparr>)"

text \<open>The states of a buffer that a client can reach from a fresh one.\<close>

inductive reachable_buffer :: "evalbuffer \<Rightarrow> bool" where
  fresh: "reachable_buffer (evalbuffer_init bsize scorer)"
| after_add: "reachable_buffer eb \<Longrightarrow> reachable_buffer (add eb owner leaf)"
| after_force_eval: "reachable_buffer eb \<Longrightarrow> reachable_buffer (force_eval eb)"
| after_pop_results: "reachable_buffer eb \<Longrightarrow> reachable_buffer (snd (pop_results eb))"

section \<open>MCTS\<close>

text \<open>
  Python's \<open>max(xs, key=f)\<close>: \<open>ValueError\<close> on an empty sequence, the first element of
  greatest key otherwise; an exception raised by the key propagates.
\<close>

fun max_loop :: "('a \<Rightarrow> error + real) \<Rightarrow> 'a \<Rightarrow> real \<Rightarrow> 'a list \<Rightarrow> error + 'a" where
  "max_loop key best best_key [] = Inr best"
| "max_loop key best best_key (x # xs) =
     (case key x of
        Inl e \<Rightarrow> Inl e
      | Inr k \<Rightarrow> if k > best_key then max_loop key x k xs else max_loop key best best_key xs)"

definition py_max :: "('a \<Rightarrow> error + real) \<Rightarrow> 'a list \<Rightarrow> error + 'a" where
  "py_max key xs =
     (case xs of
        [] \<Rightarrow> Inl (ValueError ''max() arg is an empty sequence'')
      | x # rest \<Rightarrow> (case key x of Inl e \<Rightarrow> Inl e | Inr k \<Rightarrow> max_loop key x k rest))"

text \<open>
  \<open>single_player_ucb\<close>, with the exceptions of its arithmetic: the division by
  \<open>child.count\<close>, \<open>math.log\<close> of a number that is not positive, \<open>math.sqrt\<close> of a
  negative number. Floats are idealised as reals.
\<close>

definition single_player_ucb :: "cnode \<Rightarrow> cnode \<Rightarrow> real \<Rightarrow> real \<Rightarrow> error + real" where
  "single_player_ucb child par c d =
     (if count child = 0 then Inl ZeroDivisionError
      else
        let ratio = of_int (count par) / of_int (count child)
        in if ratio \<le> 0 then Inl (ValueError ''math domain error'')
           else if c * ln ratio < 0 then Inl (ValueError ''math domain error'')
           else
             let spread = (sum_of_square_rewards child
                            - of_int (count child) * (sum_rewards child / of_int (count child)) ^ 2 + d)
                          / of_int (count child)
             in if spread < 0 then Inl (ValueError ''math domain error'')
                else Inr (sum_rewards child / of_int (count child)
                          + sqrt (c * ln ratio) + sqrt spread))"

text \<open>
  \<open>selection_policy\<close>. \<open>ucb_candidates\<close> is the list \<open>unsolved_children\<close> of the source,
  built only when the loop over the children has returned no child of count 0; it is empty
  when that loop returns.
\<close>

definition first_unvisited :: "heap \<Rightarrow> ref list \<Rightarrow> ref option" where
  "first_unvisited h cs = find (\<lambda>child. count (h ! child) = 0) cs"

definition ucb_candidates :: "heap \<Rightarrow> ref list \<Rightarrow> ref list" where
  "ucb_candidates h cs =
     (case first_unvisited h cs of
        Some child \<Rightarrow> []
      | None \<Rightarrow> filter (\<lambda>c. \<not> solved (h ! c)) cs)"

definition selection_policy :: "heap \<Rightarrow> ref \<Rightarrow> error + ref" where
  "selection_policy h counter_node =
     (case children h counter_node of
        Inl e \<Rightarrow> Inl e
      | Inr cs \<Rightarrow>
          (case first_unvisited h cs of
             Some child \<Rightarrow> Inr child
           | None \<Rightarrow>
               py_max (\<lambda>node. single_player_ucb (h ! node) (h ! counter_node) 1 100)
                 (ucb_candidates h cs)))"

definition visit :: "heap \<Rightarrow> ref \<Rightarrow> heap" where
  "visit h n = h[n := (h ! n)\<lparr> count := count (h ! n) + 1 \<rparr>]"

partial_function (option) selection_loop :: "heap \<Rightarrow> ref \<Rightarrow> (error + heap \<times> ref) option" where
  "selection_loop h node =
     (if \<not> is_terminal h node
      then (case selection_policy h node of
              Inl e \<Rightarrow> Some (Inl e)
            | Inr nxt \<Rightarrow> selection_loop (visit h nxt) nxt)
      else Some (Inr (h, node)))"

definition selection_phase :: "heap \<Rightarrow> ref \<Rightarrow> (error + heap \<times> ref) option" where
  "selection_phase h root_ref = selection_loop (visit h root_ref) root_ref"

text \<open>
  The simulation. \<open>random_child\<close> is a parameter: \<open>rc k g\<close> is the node returned by the
  \<open>k\<close>-th call made to \<open>random_child\<close> in the run, when it is made on \<open>g\<close>.
\<close>

partial_function (option) simulate :: "(nat \<Rightarrow> gnode \<Rightarrow> gnode) \<Rightarrow> nat \<Rightarrow> gnode \<Rightarrow> (gnode \<times> nat) option" where
  "simulate rc k tmp_node =
     (if \<not> g_terminal tmp_node then simulate rc (Suc k) (rc k tmp_node)
      else Some (tmp_node, k))"

text \<open>The loop \<open>for reward, leaf, frontier_counter_node in results\<close>.\<close>

fun backpropagate_all :: "heap \<Rightarrow> (real \<times> gnode \<times> ref) list \<Rightarrow> heap option" where
  "backpropagate_all h [] = Some h"
| "backpropagate_all h ((reward, leaf, frontier_counter_node) # rest) =
     (case backpropagate h frontier_counter_node reward leaf of
        None \<Rightarrow> None
      | Some h1 \<Rightarrow> backpropagate_all h1 rest)"

text \<open>
  The state of a run: the buffer and the distributor of the \<open>MCTS\<close> object, the store of
  counter nodes, and the number of calls made to \<open>random_child\<close> so far.
\<close>

record mcts =
  eval_buffer :: evalbuffer
  ressource_distributor :: distributor
  nodes :: heap
  draws :: nat

text \<open>Sequencing of steps that may raise or not return.\<close>

definition and_then :: "(error + 'a) option \<Rightarrow> ('a \<Rightarrow> (error + 'b) option) \<Rightarrow> (error + 'b) option" where
  "and_then m f = (case m of None \<Rightarrow> None | Some (Inl e) \<Rightarrow> Some (Inl e) | Some (Inr x) \<Rightarrow> f x)"

definition returns :: "'a option \<Rightarrow> (error + 'a) option" where
  "returns m = map_option Inr m"

text \<open>Step 2 of the loop body: expansion, or \<open>set_as_solved\<close> on a terminal frontier.\<close>

definition expansion :: "heap \<Rightarrow> ref \<Rightarrow> (error + heap) option" where
  "expansion h frontier_counter_node =
     (if g_terminal (reference_node (h ! frontier_counter_node))
      then set_as_solved h frontier_counter_node
      else Some (expand h frontier_counter_node))"

text \<open>\<open>pop_results\<close> followed by the backpropagation of what it returned.\<close>

definition pop_and_backpropagate :: "mcts \<Rightarrow> (error + mcts) option" where
  "pop_and_backpropagate s =
     (case pop_results (eval_buffer s) of (output, eb) \<Rightarrow>
        and_then (returns (backpropagate_all (nodes s) output))
          (\<lambda>h. Some (Inr (s\<lparr> eval_buffer := eb, nodes := h \<rparr>))))"

text \<open>The body of \<open>if self.ressource_distributor.should_go_down_into_the_tree()\<close>.\<close>

definition go_down :: "mcts \<Rightarrow> ref \<Rightarrow> int \<Rightarrow> (error + mcts \<times> ref \<times> int) option" where
  "go_down s counter_root depth =
     and_then (pop_and_backpropagate (s\<lparr> eval_buffer := force_eval (eval_buffer s) \<rparr>))
       (\<lambda>s1.
          let h = (nodes s1)[counter_root := (nodes s1 ! counter_root)\<lparr> freeze := True \<rparr>]
          in and_then (Some (children h counter_root))
               (\<lambda>cs. and_then (Some (py_max (\<lambda>child. Inr (top_reward (h ! child))) cs))
                  (\<lambda>best. Some (Inr (s1\<lparr> nodes := h,
                                         ressource_distributor :=
                                           set_new_position (ressource_distributor s1) (depth + 1) \<rparr>,
                                      best, depth + 1)))))"

text \<open>One pass through the body of the \<open>while\<close> loop of \<open>single_search\<close>.\<close>

definition iteration ::
    "(nat \<Rightarrow> gnode \<Rightarrow> gnode) \<Rightarrow> mcts \<Rightarrow> ref \<Rightarrow> int \<Rightarrow> (error + mcts \<times> ref \<times> int) option" where
  "iteration rc s counter_root depth =
     (let s0 = s\<lparr> ressource_distributor := consume_one_unit (ressource_distributor s) \<rparr>
      in and_then (selection_phase (nodes s0) counter_root)
           (\<lambda>(h1, frontier_counter_node).
              and_then (expansion h1 frontier_counter_node)
                (\<lambda>h2.
                   and_then (returns (simulate rc (draws s0)
                                        (reference_node (h2 ! frontier_counter_node))))
                     (\<lambda>(random_leaf, k).
                        and_then (pop_and_backpropagate
                                    (s0\<lparr> eval_buffer :=
                                           add (eval_buffer s0) frontier_counter_node random_leaf,
                                         nodes := h2, draws := k \<rparr>))
                          (\<lambda>s1.
                             and_then (Some (should_go_down_into_the_tree (ressource_distributor s1)))
                               (\<lambda>down. if down then go_down s1 counter_root depth
                                        else Some (Inr (s1, counter_root, depth))))))))"

partial_function (option) search_loop ::
    "(nat \<Rightarrow> gnode \<Rightarrow> gnode) \<Rightarrow> mcts \<Rightarrow> ref \<Rightarrow> int \<Rightarrow> (error + mcts) option" where
  "search_loop rc s counter_root depth =
     (if \<not> g_terminal (reference_node (nodes s ! counter_root))
         \<and> \<not> solved (nodes s ! counter_root)
         \<and> still_has_ressources (ressource_distributor s)
      then (case iteration rc s counter_root depth of
              None \<Rightarrow> None
            | Some (Inl e) \<Rightarrow> Some (Inl e)
            | Some (Inr (s1, counter_root1, depth1)) \<Rightarrow> search_loop rc s1 counter_root1 depth1)
      else Some (Inr s))"

text \<open>
  \<open>single_search\<close>: a fresh counter node for the root, the loop, then the last
  \<open>force_eval\<close>. The reference to the initial counter root is returned with the state.
\<close>

definition single_search ::
    "(nat \<Rightarrow> gnode \<Rightarrow> gnode) \<Rightarrow> mcts \<Rightarrow> gnode \<Rightarrow> (error + mcts \<times> ref) option" where
  "single_search rc s tree_root =
     (let initial_counter_root = length (nodes s);
          s0 = s\<lparr> nodes := nodes s @ [new_cnode tree_root None] \<rparr>
      in and_then (search_loop rc s0 initial_counter_root 1)
           (\<lambda>s1. Some (Inr (s1\<lparr> eval_buffer := force_eval (eval_buffer s1) \<rparr>,
                             initial_counter_root))))"

text \<open>
  \<open>search\<close>: the walks are divided among the restarts with \<open>//\<close>, the distributor is
  built once and reset before every run, and the buffer of the object is shared by the
  runs. The loop keeps the counter root of the last run; with no run at all the name
  \<open>counter_root\<close> is unbound at the \<open>return\<close>. \<open>average_depth\<close> is the value that
  \<open>estimate_mean_depth\<close> returns if the constructor of the distributor calls it.
\<close>

fun restarts ::
    "(nat \<Rightarrow> gnode \<Rightarrow> gnode) \<Rightarrow> gnode \<Rightarrow> nat \<Rightarrow> mcts \<Rightarrow> ref option
       \<Rightarrow> (error + mcts \<times> ref option) option" where
  "restarts rc tree_root 0 s last_root = Some (Inr (s, last_root))"
| "restarts rc tree_root (Suc i) s last_root =
     and_then (single_search rc
                 (s\<lparr> ressource_distributor := reset (ressource_distributor s) \<rparr>) tree_root)
       (\<lambda>(s1, counter_root). restarts rc tree_root i s1 (Some counter_root))"

definition search ::
    "(nat \<Rightarrow> gnode \<Rightarrow> gnode) \<Rightarrow> real \<Rightarrow> evalbuffer \<Rightarrow> string \<Rightarrow> int \<Rightarrow> gnode \<Rightarrow> int
       \<Rightarrow> (error + string \<times> real \<times> ref \<times> mcts) option" where
  "search rc average_depth eb allocation_strategy nb_random_restarts tree_root nb_of_tree_walks =
     (if nb_random_restarts = 0 then Some (Inl ZeroDivisionError)
      else
        and_then (Some (distributor_init allocation_strategy average_depth
                          (nb_of_tree_walks div nb_random_restarts)))
          (\<lambda>d. and_then (restarts rc tree_root (nat nb_random_restarts)
                            \<lparr> eval_buffer = eb, ressource_distributor = d,
                              nodes = [], draws = 0 \<rparr> None)
                  (\<lambda>(s, last_root).
                     case last_root of
                       None \<Rightarrow> Some (Inl (UnboundLocalError ''counter_root''))
                     | Some counter_root \<Rightarrow>
                         Some (Inr (best_sentence (eval_buffer s), best_score (eval_buffer s),
                                    counter_root, s)))))"

section \<open>The formula of the specification\<close>

text \<open>
  The single-player UCB as the specification writes it, with \<open>mean(c)\<close> a quantity of its
  own. It is compared below with \<open>single_player_ucb\<close>, which follows the source.
\<close>

definition mean :: "cnode \<Rightarrow> real" where
  "mean c = sum_rewards c / of_int (count c)"

definition ucb_formula :: "cnode \<Rightarrow> cnode \<Rightarrow> real \<Rightarrow> real \<Rightarrow> real" where
  "ucb_formula c p C D =
     mean c + sqrt (C * ln (of_int (count p) / of_int (count c)))
     + sqrt ((sum_of_square_rewards c - of_int (count c) * (mean c) ^ 2 + D) / of_int (count c))"

section \<open>Example inputs\<close>

definition g_leaf_a :: gnode where "g_leaf_a = GNode ''a'' True False []"
definition g_leaf_b :: gnode where "g_leaf_b = GNode ''b'' True False []"
definition g_dead :: gnode where "g_dead = GNode ''x'' True True []"
definition g_pair :: gnode where "g_pair = GNode ''r'' False False [g_leaf_a, g_leaf_b]"
definition g_hollow :: gnode where "g_hollow = GNode ''h'' False False []"

text \<open>The store after one call of \<open>expand\<close> on a fresh root, and after a second call.\<close>

definition store_once :: heap where
  "store_once =
     [(new_cnode g_pair None)\<lparr> children_field := Some [1, 2], is_terminal_field := False \<rparr>,
      new_cnode g_leaf_a (Some 0), new_cnode g_leaf_b (Some 0)]"

definition store_twice :: heap where
  "store_twice =
     [(new_cnode g_pair None)\<lparr> children_field := Some [3, 4], is_terminal_field := False \<rparr>,
      new_cnode g_leaf_a (Some 0), new_cnode g_leaf_b (Some 0),
      new_cnode g_leaf_a (Some 0), new_cnode g_leaf_b (Some 0)]"

text \<open>An expanded root that has been frozen, and its two children.\<close>

definition frozen_store :: heap where
  "frozen_store =
     [(new_cnode g_pair None)\<lparr> children_field := Some [1, 2], is_terminal_field := False,
                                count := 2, freeze := True \<rparr>,
      (new_cnode g_leaf_a (Some 0))\<lparr> count := 1 \<rparr>, new_cnode g_leaf_b (Some 0)]"

definition linear_distributor :: distributor where
  "linear_distributor =
     \<lparr> strategy = ''LINEAR'', ressources_to_consume = 10,
       ressources_to_consume_at_current_depth = None, current_depth = 1,
       ressources_already_consumed = 0, ressources_already_consumed_at_current_depth = 0 \<rparr>"

text \<open>A scorer: one half for the text \<open>a\<close>, one quarter for any other text.\<close>

definition half_scorer :: "string list \<Rightarrow> real list" where
  "half_scorer texts = map (\<lambda>t. if t = ''a'' then 1 / 2 else 1 / 4) texts"

definition pending_two :: evalbuffer where
  "pending_two = (evalbuffer_init 3 half_scorer)\<lparr> buffer := [(g_leaf_b, 1), (g_leaf_a, 2)] \<rparr>"

text \<open>A child visited twice under a parent visited four times.\<close>

definition ucb_child :: cnode where
  "ucb_child = (new_cnode g_leaf_a (Some 0))\<lparr> count := 2, sum_rewards := 1,
                                              sum_of_square_rewards := 1 / 2 \<rparr>"

definition ucb_parent :: cnode where
  "ucb_parent = (new_cnode g_pair None)\<lparr> count := 4 \<rparr>"

text \<open>The float \<open>2.4\<close>: the binary64 number nearest to twelve fifths.\<close>

definition float_2_4 :: real where
  "float_2_4 = 5404319552844595 / 2251799813685248"

definition seven_units :: "distributor_call list" where
  "seven_units = [Consume_one_unit, Consume_one_unit, Consume_one_unit, Consume_one_unit,
                  Consume_one_unit, Consume_one_unit, Consume_one_unit]"

section \<open>The ordering of the visit counts\<close>

text \<open>
  \<open>pair_ok E h n p\<close>: the count of \<open>p\<close> is at least that of \<open>n\<close>, unless \<open>p\<close> is
  frozen and \<open>n\<close> is a logical root, former (frozen itself) or current (one of \<open>E\<close>).
  \<open>E\<close> holds the current logical roots: one for a run of \<open>single_search\<close>.
  \<open>node_ok E h n\<close>: the count of the object \<open>n\<close> is not negative; its parent, if it
  has one, is an object \<open>p\<close> of the store with \<open>pair_ok E h n p\<close>; its children, if it
  has been expanded, are objects of the store whose parent is \<open>n\<close>.
\<close>

definition pair_ok :: "ref set \<Rightarrow> heap \<Rightarrow> ref \<Rightarrow> ref \<Rightarrow> bool" where
  "pair_ok E h n p \<longleftrightarrow>
     count (h ! n) \<le> count (h ! p) \<or> (freeze (h ! p) \<and> (freeze (h ! n) \<or> n \<in> E))"

definition node_ok :: "ref set \<Rightarrow> heap \<Rightarrow> ref \<Rightarrow> bool" where
  "node_ok E h n \<longleftrightarrow>
     0 \<le> count (h ! n)
     \<and> (case parent (h ! n) of
          None \<Rightarrow> True
        | Some p \<Rightarrow> p < length h \<and> pair_ok E h n p)
     \<and> (case children_field (h ! n) of
          None \<Rightarrow> True
        | Some cs \<Rightarrow> \<forall>c \<in> set cs. c < length h \<and> parent (h ! c) = Some n)"

definition counts_ordered :: "ref set \<Rightarrow> heap \<Rightarrow> bool" where
  "counts_ordered E h \<longleftrightarrow> (\<forall>n < length h. node_ok E h n)"

text \<open>The logical root of a search: an object without a parent, or with a frozen one.\<close>

definition logical_root :: "heap \<Rightarrow> ref \<Rightarrow> bool" where
  "logical_root h r \<longleftrightarrow>
     r < length h \<and> (case parent (h ! r) of None \<Rightarrow> True | Some p \<Rightarrow> freeze (h ! p))"

text \<open>
  \<open>stable h h'\<close>: every object of \<open>h\<close> is in \<open>h'\<close> with the same parent, frozen if it
  was, and with a count that has not decreased.
\<close>

definition stable :: "heap \<Rightarrow> heap \<Rightarrow> bool" where
  "stable h h' \<longleftrightarrow>
     length h \<le> length h'
     \<and> (\<forall>n < length h. parent (h' ! n) = parent (h ! n)
                        \<and> (freeze (h ! n) \<longrightarrow> freeze (h' ! n))
                        \<and> count (h ! n) \<le> count (h' ! n))"

text \<open>
  \<open>same_frame h h'\<close>: the two stores hold the same objects with the same links, flags,
  counts and wrapped nodes; only rewards and solved marks may differ.
\<close>

definition same_frame :: "heap \<Rightarrow> heap \<Rightarrow> bool" where
  "same_frame h h' \<longleftrightarrow>
     length h' = length h
     \<and> (\<forall>n < length h. parent (h' ! n) = parent (h ! n) \<and> freeze (h' ! n) = freeze (h ! n)
            \<and> count (h' ! n) = count (h ! n) \<and> children_field (h' ! n) = children_field (h ! n)
            \<and> reference_node (h' ! n) = reference_node (h ! n))"

text \<open>
  \<open>below_strict E h node\<close>: the selection has just visited \<open>node\<close>; every other object
  whose parent is \<open>node\<close> has a count strictly below its count, the logical roots under
  a frozen \<open>node\<close> apart.
\<close>

definition below_strict :: "ref set \<Rightarrow> heap \<Rightarrow> ref \<Rightarrow> bool" where
  "below_strict E h node \<longleftrightarrow>
     node < length h
     \<and> (\<forall>n < length h. parent (h ! n) = Some node \<and> n \<noteq> node \<longrightarrow>
            count (h ! n) < count (h ! node)
            \<or> (freeze (h ! node) \<and> (freeze (h ! n) \<or> n \<in> E)))"

text \<open>
  \<open>chain_ok E h\<close>: the objects that root advancement has reached form chains. Every
  object of \<open>E\<close> is a logical root; the parent of an object is an object of the store,
  and a frozen one if the object is frozen; and two distinct objects with the same parent
  are never both frozen or in \<open>E\<close>: a node has at most one child that has been a
  logical root.
\<close>

definition chain_ok :: "ref set \<Rightarrow> heap \<Rightarrow> bool" where
  "chain_ok E h \<longleftrightarrow>
     (\<forall>e \<in> E. logical_root h e)
     \<and> (\<forall>n < length h. case parent (h ! n) of
                           None \<Rightarrow> True
                         | Some p \<Rightarrow> p < length h \<and> (freeze (h ! n) \<longrightarrow> freeze (h ! p)))
     \<and> (\<forall>n < length h. \<forall>m < length h.
           parent (h ! n) \<noteq> None \<and> parent (h ! m) = parent (h ! n)
           \<and> (freeze (h ! n) \<or> n \<in> E) \<and> (freeze (h ! m) \<or> m \<in> E) \<longrightarrow> n = m)"

text \<open>
  \<open>grows h h'\<close>: the objects of \<open>h\<close> are in \<open>h'\<close> with the same parent and the same
  freeze flag; the objects that \<open>h'\<close> has more are not frozen and their parent is an
  object of \<open>h'\<close>.
\<close>

definition grows :: "heap \<Rightarrow> heap \<Rightarrow> bool" where
  "grows h h' \<longleftrightarrow>
     length h \<le> length h'
     \<and> (\<forall>n < length h. parent (h' ! n) = parent (h ! n) \<and> freeze (h' ! n) = freeze (h ! n))
     \<and> (\<forall>n < length h'. length h \<le> n \<longrightarrow>
           \<not> freeze (h' ! n)
           \<and> (case parent (h' ! n) of None \<Rightarrow> True | Some p \<Rightarrow> p < length h'))"

section \<open>Two searches\<close>

text \<open>A \<open>random_child\<close> that always returns the first child.\<close>

definition first_child :: "nat \<Rightarrow> gnode \<Rightarrow> gnode" where
  "first_child k g = hd (g_children g)"

definition g_chain :: gnode where "g_chain = GNode ''r'' False False [g_pair]"

text \<open>
  The state at the end of \<open>search\<close> on \<open>g_pair\<close> with one walk, one restart, the strategy
  \<open>ALL_FROM_ROOT\<close> and a buffer of size 2.
\<close>

definition end_lazy :: mcts where
  "end_lazy =
     \<lparr> eval_buffer =
         \<lparr> lm_scorer = half_scorer, buffer_size = 2, buffer = [],
           results = [(1 / 2, g_leaf_a, 0)], best_sentence = ''a'', best_score = 1 / 2,
           score_history = [1 / 2], scorer_calls = [[''a'']] \<rparr>,
       ressource_distributor =
         \<lparr> strategy = ''ALL_FROM_ROOT'', ressources_to_consume = 1,
           ressources_to_consume_at_current_depth = Some (Finite 1), current_depth = 1,
           ressources_already_consumed = 1, ressources_already_consumed_at_current_depth = 1 \<rparr>,
       nodes =
         [(new_cnode g_pair None)\<lparr> children_field := Some [1, 2], is_terminal_field := False,
                                    count := 1 \<rparr>,
          new_cnode g_leaf_a (Some 0), new_cnode g_leaf_b (Some 0)],
       draws = 1 \<rparr>"

text \<open>
  The search on \<open>g_chain\<close> with four walks, one restart, the strategy \<open>UNIFORM\<close>, an
  estimated mean depth of 3 and a buffer of size 1: the state before the first pass of
  the loop, the state after it, and the state at the end of \<open>search\<close>.
\<close>

definition uniform_start :: mcts where
  "uniform_start =
     \<lparr> eval_buffer = evalbuffer_init 1 half_scorer,
       ressource_distributor =
         \<lparr> strategy = ''UNIFORM'', ressources_to_consume = 4,
           ressources_to_consume_at_current_depth =
             Some (Finite (7205759403792793 / 4503599627370496)), current_depth = 1,
           ressources_already_consumed = 0, ressources_already_consumed_at_current_depth = 0 \<rparr>,
       nodes = [new_cnode g_chain None],
       draws = 0 \<rparr>"

definition uniform_first :: mcts where
  "uniform_first =
     \<lparr> eval_buffer =
         \<lparr> lm_scorer = half_scorer, buffer_size = 1, buffer = [], results = [],
           best_sentence = ''a'', best_score = 1 / 2, score_history = [1 / 2],
           scorer_calls = [[''a'']] \<rparr>,
       ressource_distributor =
         \<lparr> strategy = ''UNIFORM'', ressources_to_consume = 4,
           ressources_to_consume_at_current_depth =
             Some (Finite (7205759403792793 / 4503599627370496)), current_depth = 1,
           ressources_already_consumed = 1, ressources_already_consumed_at_current_depth = 1 \<rparr>,
       nodes =
         [(new_cnode g_chain None)\<lparr> children_field := Some [1], is_terminal_field := False,
              count := 1, sum_rewards := 1 / 2, sum_of_square_rewards := 1 / 4,
              top_reward := 1 / 2, top_leaf_node := Some g_leaf_a \<rparr>,
          new_cnode g_pair (Some 0)],
       draws = 2 \<rparr>"

definition uniform_end :: mcts where
  "uniform_end =
     \<lparr> eval_buffer =
         \<lparr> lm_scorer = half_scorer, buffer_size = 1, buffer = [], results = [],
           best_sentence = ''a'', best_score = 1 / 2,
           score_history = [1 / 2, 1 / 2, 1 / 2, 1 / 4],
           scorer_calls = [[''a''], [''a''], [''a''], [''b'']] \<rparr>,
       ressource_distributor =
         \<lparr> strategy = ''UNIFORM'', ressources_to_consume = 4,
           ressources_to_consume_at_current_depth =
             Some (Finite (7205759403792793 / 4503599627370496)), current_depth = 3,
           ressources_already_consumed = 4, ressources_already_consumed_at_current_depth = 0 \<rparr>,
       nodes =
         [(new_cnode g_chain None)\<lparr> children_field := Some [1], is_terminal_field := False,
              count := 2, sum_rewards := 1, sum_of_square_rewards := 1 / 2,
              top_reward := 1 / 2, top_leaf_node := Some g_leaf_a, freeze := True \<rparr>,
          (new_cnode g_pair (Some 0))\<lparr> children_field := Some [2, 3],
              is_terminal_field := False, count := 3, sum_rewards := 5 / 4,
              sum_of_square_rewards := 9 / 16, top_reward := 1 / 2,
              top_leaf_node := Some g_leaf_a, freeze := True, solved := True \<rparr>,
          (new_cnode g_leaf_a (Some 1))\<lparr> count := 1, sum_rewards := 1 / 2,
              sum_of_square_rewards := 1 / 4, top_reward := 1 / 2,
              top_leaf_node := Some g_leaf_a, solved := True \<rparr>,
          (new_cnode g_leaf_b (Some 1))\<lparr> count := 1, sum_rewards := 1 / 4,
              sum_of_square_rewards := 1 / 16, top_reward := 1 / 4,
              top_leaf_node := Some g_leaf_b, solved := True \<rparr>],
       draws = 3 \<rparr>"

section \<open>Evaluation of the examples\<close>

lemma g_example_fields [simp]:
  "g_terminal g_pair = False" "g_children g_pair = [g_leaf_a, g_leaf_b]"
  "g_terminal g_leaf_a = True" "g_terminal g_leaf_b = True" "g_terminal g_dead = True"
  "g_dead_end g_leaf_a = False" "g_dead_end g_leaf_b = False" "g_dead_end g_dead = True"
  "g_text g_leaf_a = ''a''" "g_text g_leaf_b = ''b''" "g_text g_dead = ''x''"
  "g_terminal g_hollow = False" "g_children g_hollow = []"
  by (simp_all add: g_pair_def g_leaf_a_def g_leaf_b_def g_hollow_def g_dead_def)

lemmas backpropagate_induct = backpropagate.raw_induct[rotated 1, consumes 1, case_names step]

lemma backpropagate_frozen: "freeze (h ! n) \<Longrightarrow> backpropagate h n reward leaf = Some h"
  by (subst backpropagate.simps) simp

lemma backpropagate_unfrozen:
  "\<not> freeze (h ! n) \<Longrightarrow>
   backpropagate h n reward leaf =
     (let h1 = h[n := (h ! n)\<lparr> sum_rewards := sum_rewards (h ! n) + reward \<rparr>];
          h2 = h1[n := (h1 ! n)\<lparr> sum_of_square_rewards :=
                                   sum_of_square_rewards (h1 ! n) + reward ^ 2 \<rparr>];
          h3 = (if reward > top_reward (h2 ! n)
                then h2[n := (h2 ! n)\<lparr> top_reward := reward, top_leaf_node := Some leaf \<rparr>]
                else h2)
      in case parent (h3 ! n) of
           None \<Rightarrow> Some h3
         | Some p \<Rightarrow> backpropagate h3 p reward leaf)"
  by (subst backpropagate.simps) simp

section \<open>CounterNode: backpropagation and expansion\<close>

lemma backpropagate_length:
  "backpropagate h m reward leaf = Some h' \<Longrightarrow> length h' = length h"
proof (induction rule: backpropagate_induct)
  case (step bp h n new_reward leaf ha)
  from step(2) show ?case
    by (auto simp: Let_def dest: step(1) split: if_splits option.splits)
qed

lemma backpropagate_keeps_frozen:
  "backpropagate h m reward leaf = Some h' \<Longrightarrow> freeze (h ! n) \<Longrightarrow> n < length h
     \<Longrightarrow> h' ! n = h ! n"
proof (induction rule: backpropagate_induct)
  case (step bp h m new_reward leaf ha)
  show ?case
  proof (cases "freeze (h ! m)")
    case True
    with step(2) show ?thesis by simp
  next
    case False
    then have nm: "n \<noteq> m" using step(3) by auto
    from step(2) False nm step(3,4) show ?thesis
      by (auto simp: Let_def dest!: step(1) split: if_splits option.splits)
  qed
qed

lemma backpropagate_stops_at_frozen_parent:
  assumes "m < length h" and "\<not> freeze (h ! m)" and "parent (h ! m) = Some n"
    and "freeze (h ! n)"
  shows "\<exists>h'. backpropagate h m reward leaf = Some h' \<and> (\<forall>k. k \<noteq> m \<longrightarrow> h' ! k = h ! k)"
proof -
  define h1 where "h1 = h[m := (h ! m)\<lparr> sum_rewards := sum_rewards (h ! m) + reward \<rparr>]"
  define h2 where "h2 = h1[m := (h1 ! m)\<lparr> sum_of_square_rewards :=
                                   sum_of_square_rewards (h1 ! m) + reward ^ 2 \<rparr>]"
  define h3 where "h3 = (if reward > top_reward (h2 ! m)
                then h2[m := (h2 ! m)\<lparr> top_reward := reward, top_leaf_node := Some leaf \<rparr>]
                else h2)"
  have nm: "n \<noteq> m" using assms(2,4) by auto
  have other: "h3 ! k = h ! k" if "k \<noteq> m" for k
    using that by (simp add: h3_def h2_def h1_def)
  have par: "parent (h3 ! m) = Some n"
    using assms(1,3) by (simp add: h3_def h2_def h1_def)
  have "freeze (h3 ! n)" using other[OF nm] assms(4) by simp
  then have stop: "backpropagate h3 n reward leaf = Some h3"
    by (rule backpropagate_frozen)
  have "backpropagate h m reward leaf
          = (case parent (h3 ! m) of None \<Rightarrow> Some h3 | Some p \<Rightarrow> backpropagate h3 p reward leaf)"
    unfolding h3_def h2_def h1_def using backpropagate_unfrozen[OF assms(2)]
    by (simp only: Let_def)
  then have "backpropagate h m reward leaf = Some h3"
    by (simp add: par stop)
  with other show ?thesis by blast
qed

text \<open>
  C7. A call of \<open>backpropagate\<close> on a frozen node returns at once and leaves the whole
  store as it was: the count, the two sums, the top reward and the top leaf of the node,
  and every other object, its ancestors among them, since the parent is not called.
  No backpropagation, wherever it starts, changes a frozen node; and one that starts at
  an unfrozen child of the frozen node changes that child only.
\<close>

theorem backpropagate_frozen_no_effect:
  assumes "n < length h" and "freeze (h ! n)"
  shows "backpropagate h n reward leaf = Some h
         \<and> (\<forall>m h'. backpropagate h m reward leaf = Some h' \<longrightarrow> h' ! n = h ! n)
         \<and> (\<forall>m. m < length h \<and> \<not> freeze (h ! m) \<and> parent (h ! m) = Some n \<longrightarrow>
               (\<exists>h'. backpropagate h m reward leaf = Some h'
                      \<and> (\<forall>k. k \<noteq> m \<longrightarrow> h' ! k = h ! k)))"
proof -
  have "backpropagate h n reward leaf = Some h"
    using assms(2) by (rule backpropagate_frozen)
  moreover have "\<forall>m h'. backpropagate h m reward leaf = Some h' \<longrightarrow> h' ! n = h ! n"
    using assms backpropagate_keeps_frozen by blast
  moreover have "\<forall>m. m < length h \<and> \<not> freeze (h ! m) \<and> parent (h ! m) = Some n \<longrightarrow>
               (\<exists>h'. backpropagate h m reward leaf = Some h'
                      \<and> (\<forall>k. k \<noteq> m \<longrightarrow> h' ! k = h ! k))"
    using assms(2) backpropagate_stops_at_frozen_parent by blast
  ultimately show ?thesis by blast
qed

theorem backpropagate_frozen_no_effect_witness:
  "0 < length frozen_store \<and> freeze (frozen_store ! 0)
   \<and> backpropagate frozen_store 0 (1 / 2) g_leaf_a = Some frozen_store
   \<and> (\<exists>h'. backpropagate frozen_store 1 (1 / 2) g_leaf_a = Some h'
          \<and> sum_rewards (h' ! 1) = 1 / 2 \<and> h' ! 0 = frozen_store ! 0
          \<and> h' ! 2 = frozen_store ! 2)"
proof -
  have a: "0 < length frozen_store" "freeze (frozen_store ! 0)"
    by (simp_all add: frozen_store_def new_cnode_def)
  define h' where "h' = frozen_store[1 := (frozen_store ! 1)\<lparr> sum_rewards := 1 / 2,
      sum_of_square_rewards := 1 / 4, top_reward := 1 / 2, top_leaf_node := Some g_leaf_a \<rparr>]"
  have nf: "\<not> freeze (frozen_store ! 1)"
    by (simp add: frozen_store_def new_cnode_def)
  have c: "1 < length frozen_store \<and> \<not> freeze (frozen_store ! 1)
           \<and> parent (frozen_store ! 1) = Some 0"
    by (simp add: frozen_store_def new_cnode_def)
  have run: "backpropagate frozen_store 1 (1 / 2) g_leaf_a = Some h'"
    by (subst backpropagate_unfrozen[OF nf])
      (simp add: Let_def frozen_store_def new_cnode_def power2_eq_square
        backpropagate_frozen h'_def)
  have s: "sum_rewards (h' ! 1) = 1 / 2"
    by (simp add: h'_def frozen_store_def)
  note t = backpropagate_frozen_no_effect[OF a, of "1 / 2" g_leaf_a]
  from t have "backpropagate frozen_store 0 (1 / 2) g_leaf_a = Some frozen_store"
    by blast
  moreover from t run have "h' ! 0 = frozen_store ! 0"
    by blast
  moreover from t c obtain h'' where "backpropagate frozen_store 1 (1 / 2) g_leaf_a = Some h''"
      and "\<forall>k. k \<noteq> 1 \<longrightarrow> h'' ! k = frozen_store ! k"
    by blast
  with run have "h' ! 2 = frozen_store ! 2"
    by simp
  ultimately show ?thesis using a run s by blast
qed

text \<open>
  C3, counterexample. \<open>expand\<close> on a root that has been expanded returns: the first call
  gives the root the children 1 and 2, the second call raises nothing and replaces them
  with the fresh objects 3 and 4.
\<close>

theorem expand_twice_counterexample:
  "expand [new_cnode g_pair None] 0 = Inr store_once
   \<and> \<not> is_terminal store_once 0
   \<and> children store_once 0 = Inr [1, 2]
   \<and> expand store_once 0 = Inr store_twice
   \<and> children store_twice 0 = Inr [3, 4]"
  by (simp add: expand_def store_once_def store_twice_def Let_def new_cnode_def
      is_terminal_def children_def upt_rec)

text \<open>
  C3, amended. \<open>expand\<close> raises the assertion error when the wrapped node is terminal. On
  a node whose wrapped node is not terminal it raises nothing, whether the node has been
  expanded before or not: it allocates one fresh counter node per child of the wrapped
  node, in order, makes them the children of the node and clears its terminal flag.
\<close>

theorem expand_raises_only_on_terminal:
  "(g_terminal (reference_node (h ! n)) \<longrightarrow>
      expand h n = Inl (AssertionError ''Try to expand a terminal node''))
   \<and> (\<not> g_terminal (reference_node (h ! n)) \<and> n < length h \<longrightarrow>
      (\<exists>h'. expand h n = Inr h'
        \<and> children_field (h' ! n)
            = Some [length h ..< length h + length (g_children (reference_node (h ! n)))]
        \<and> \<not> is_terminal h' n
        \<and> length h' = length h + length (g_children (reference_node (h ! n)))
        \<and> (\<forall>i < length (g_children (reference_node (h ! n))).
              h' ! (length h + i)
                = new_cnode (g_children (reference_node (h ! n)) ! i) (Some n))))"
  by (auto simp add: expand_def Let_def is_terminal_def nth_append)

theorem expand_raises_only_on_terminal_witness:
  "expand [new_cnode g_leaf_a None] 0 = Inl (AssertionError ''Try to expand a terminal node'')
   \<and> (\<exists>h'. expand store_once 0 = Inr h' \<and> children_field (h' ! 0) = Some [3, 4]
          \<and> \<not> is_terminal h' 0)"
proof -
  have t: "g_terminal (reference_node ([new_cnode g_leaf_a None] ! 0))"
    by (simp add: new_cnode_def)
  have nt: "\<not> g_terminal (reference_node (store_once ! 0)) \<and> 0 < length store_once"
    by (simp add: store_once_def new_cnode_def)
  have k: "g_children (reference_node (store_once ! 0)) = [g_leaf_a, g_leaf_b]"
      "length store_once = 3"
    by (simp_all add: store_once_def new_cnode_def)
  from expand_raises_only_on_terminal[of "[new_cnode g_leaf_a None]" 0] t
  have "expand [new_cnode g_leaf_a None] 0 = Inl (AssertionError ''Try to expand a terminal node'')"
    by blast
  moreover from expand_raises_only_on_terminal[of store_once 0] nt
  have "\<exists>h'. expand store_once 0 = Inr h' \<and> children_field (h' ! 0) = Some [3, 4]
          \<and> \<not> is_terminal h' 0"
    by (auto simp: k upt_rec)
  ultimately show ?thesis by blast
qed

text \<open>
  C10. When the wrapped node is not terminal and has no children, \<open>expand\<close> succeeds and
  clears the terminal flag, so that the selection descends into the node; yet
  \<open>children\<close> raises its assertion error on the node, the empty list being false, and so
  does the selection phase started at the node.
\<close>

theorem expand_without_children_unreadable:
  assumes "n < length h" and "\<not> g_terminal (reference_node (h ! n))"
    and "g_children (reference_node (h ! n)) = []"
  shows "\<exists>h'. expand h n = Inr h' \<and> \<not> is_terminal h' n
           \<and> children h' n = Inl not_expanded_yet
           \<and> selection_phase h' n = Some (Inl not_expanded_yet)"
proof -
  define h' where "h' = h[n := (h ! n)\<lparr> children_field := Some [], is_terminal_field := False \<rparr>]"
  have e: "expand h n = Inr h'"
    using assms by (simp add: expand_def h'_def)
  have t: "\<not> is_terminal h' n" and c: "children h' n = Inl not_expanded_yet"
    using assms(1) by (simp_all add: h'_def is_terminal_def children_def)
  have t2: "\<not> is_terminal (visit h' n) n"
    and c2: "children (visit h' n) n = Inl not_expanded_yet"
    using assms(1) by (simp_all add: h'_def is_terminal_def children_def visit_def)
  have "selection_phase h' n = Some (Inl not_expanded_yet)"
    unfolding selection_phase_def
    by (subst selection_loop.simps) (simp add: t2 selection_policy_def c2)
  with e t c show ?thesis by blast
qed

theorem expand_without_children_unreadable_witness:
  "0 < length [new_cnode g_hollow None]
   \<and> \<not> g_terminal (reference_node ([new_cnode g_hollow None] ! 0))
   \<and> g_children (reference_node ([new_cnode g_hollow None] ! 0)) = []
   \<and> (\<exists>h'. expand [new_cnode g_hollow None] 0 = Inr h' \<and> \<not> is_terminal h' 0
           \<and> children h' 0 = Inl not_expanded_yet
           \<and> selection_phase h' 0 = Some (Inl not_expanded_yet))"
proof -
  have a: "0 < length [new_cnode g_hollow None]"
      "\<not> g_terminal (reference_node ([new_cnode g_hollow None] ! 0))"
      "g_children (reference_node ([new_cnode g_hollow None] ! 0)) = []"
    by (simp_all add: new_cnode_def)
  from expand_without_children_unreadable[OF a] a show ?thesis by blast
qed

section \<open>Evaluation of the float operations\<close>

lemma round_half_even_down: "of_int f \<le> x \<Longrightarrow> x < of_int f + 1 / 2 \<Longrightarrow> round_half_even x = f"
proof -
  assume a: "of_int f \<le> x" "x < of_int f + 1 / 2"
  then have "\<lfloor>x\<rfloor> = f" by linarith
  with a show ?thesis by (simp add: round_half_even_def Let_def)
qed

lemma round_half_even_up:
  "of_int f + 1 / 2 < x \<Longrightarrow> x \<le> of_int f + 1 \<Longrightarrow> round_half_even x = f + 1"
proof -
  assume a: "of_int f + 1 / 2 < x" "x \<le> of_int f + 1"
  show ?thesis
  proof (cases "x = of_int f + 1")
    case True
    then have "\<lfloor>x\<rfloor> = f + 1" by simp
    with True show ?thesis by (simp add: round_half_even_def Let_def)
  next
    case False
    with a have "\<lfloor>x\<rfloor> = f" by linarith
    with a show ?thesis by (simp add: round_half_even_def Let_def)
  qed
qed

lemma round_half_even_int [simp]: "round_half_even (of_int f) = f"
  by (simp add: round_half_even_def)

lemma round_half_even_nearest:
  assumes "of_int m - 1 / 2 < x" and "x < of_int m + 1 / 2"
  shows "round_half_even x = m"
proof (cases "of_int m \<le> x")
  case True
  from True assms(2) show ?thesis by (rule round_half_even_down)
next
  case False
  have "round_half_even x = (m - 1) + 1"
  proof (rule round_half_even_up)
    show "of_int (m - 1) + 1 / 2 < x" using assms(1) by simp
    show "x \<le> of_int (m - 1) + 1" using False by simp
  qed
  then show ?thesis by simp
qed

lemma double_ulp_binade:
  assumes "2 ^ k \<le> \<bar>x\<bar>" and "\<bar>x\<bar> < 2 ^ Suc k"
  shows "double_ulp x = 2 ^ k / 2 ^ 52"
proof -
  have pos: "0 < \<bar>x\<bar>" using assms(1) by (smt (verit) zero_less_power)
  have lo: "(2::real) powr (of_int (int k)) = 2 ^ k"
    by (simp add: powr_realpow)
  have "(2::real) powr real (Suc k) = 2 ^ Suc k"
    by (rule powr_realpow) simp
  moreover have "(of_int (int k + 1) :: real) = real (Suc k)"
    by simp
  ultimately have hi: "(2::real) powr (of_int (int k + 1)) = 2 ^ Suc k"
    by (simp only:)
  have "(2::real) powr (of_int (int k)) \<le> \<bar>x\<bar> \<and> \<bar>x\<bar> < 2 powr (of_int (int k + 1))"
    using assms unfolding lo hi by simp
  then have "\<lfloor>log 2 \<bar>x\<bar>\<rfloor> = int k"
    using floor_log_eq_powr_iff[OF pos, of 2 "int k"] by simp
  then have "double_ulp x = 2 powr (of_int (int k) - 52)"
    by (simp add: double_ulp_def)
  also have "\<dots> = 2 powr (of_int (int k)) / 2 powr 52"
    by (simp add: powr_diff)
  also have "\<dots> = 2 ^ k / 2 ^ 52"
    unfolding lo by simp
  finally show ?thesis .
qed

lemma double_round_eval:
  assumes "2 ^ k \<le> \<bar>x\<bar>" and "\<bar>x\<bar> < 2 ^ Suc k"
    and "of_int m - 1 / 2 < x * 2 ^ 52 / 2 ^ k" and "x * 2 ^ 52 / 2 ^ k < of_int m + 1 / 2"
  shows "double_round x = of_int m * 2 ^ k / 2 ^ 52"
proof -
  have nz: "x \<noteq> 0" using assms(1) by (smt (verit) zero_less_power)
  have "x / double_ulp x = x * 2 ^ 52 / 2 ^ k"
    by (simp add: double_ulp_binade[OF assms(1,2)])
  then have "round_half_even (x / double_ulp x) = m"
    using round_half_even_nearest[OF assms(3,4)] by simp
  then show ?thesis
    using nz by (simp add: double_round_def double_ulp_binade[OF assms(1,2)])
qed

lemma double_1_2: "double_round (12 / 10) = 5404319552844595 / 4503599627370496"
proof -
  have "double_round (12 / 10) = of_int 5404319552844595 * 2 ^ 0 / 2 ^ 52"
    by (rule double_round_eval) simp_all
  then show ?thesis by simp
qed

lemma double_14: "double_round 14 = 14"
proof -
  have "double_round 14 = of_int 7881299347898368 * 2 ^ 3 / 2 ^ 52"
    by (rule double_round_eval) simp_all
  then show ?thesis by simp
qed

lemma double_2_4: "double_round (24 / 10) = 5404319552844595 / 2251799813685248"
proof -
  have "double_round (24 / 10) = of_int 5404319552844595 * 2 ^ 1 / 2 ^ 52"
    by (rule double_round_eval) simp_all
  then show ?thesis by simp
qed

lemma to_double_finite:
  assumes "double_round x = y" and "\<bar>y\<bar> < 2 ^ 1024"
  shows "to_double x = Finite y"
proof -
  define B :: real where "B = 2 ^ 1024"
  have "\<bar>y\<bar> < B" using assms(2) unfolding B_def .
  then have "\<not> B \<le> y" "\<not> y \<le> - B" by linarith+
  then have "(if B \<le> y then PlusInfinity else if y \<le> - B then MinusInfinity else Finite y)
               = Finite y"
    by (simp only: if_False)
  then show ?thesis
    unfolding to_double_def Let_def assms(1) B_def .
qed

lemma times_1_2_finite:
  assumes "double_round (v * (5404319552844595 / 4503599627370496)) = y" and "\<bar>y\<bar> < 2 ^ 1024"
  shows "times_1_2 (Finite v) = Finite y"
proof -
  have "times_1_2 (Finite v) = to_double (v * double_round (12 / 10))"
    by (simp only: times_1_2_def number.case)
  also have "\<dots> = to_double (v * (5404319552844595 / 4503599627370496))"
    by (simp only: double_1_2)
  also have "\<dots> = Finite y"
    using assms by (rule to_double_finite)
  finally show ?thesis .
qed

lemma float_of_int_finite:
  assumes "double_round (of_int n) = y" and "\<bar>y\<bar> < 2 ^ 1024"
  shows "float_of_int n = Inr y"
proof -
  have "\<not> 2 ^ 1024 \<le> \<bar>y\<bar>" using assms(2) by linarith
  then have "(if 2 ^ 1024 \<le> \<bar>y\<bar>
              then Inl (OverflowError ''int too large to convert to float'') else Inr y) = Inr y"
    by (simp only: if_False)
  then show ?thesis
    unfolding float_of_int_def Let_def assms(1) .
qed

lemma float_of_int_14: "float_of_int 14 = Inr 14"
proof (rule float_of_int_finite)
  have "double_round 14 = of_int 7881299347898368 * 2 ^ 3 / 2 ^ 52"
    by (rule double_round_eval) simp_all
  then show "double_round (of_int 14) = 14" by simp
  show "\<bar>14 :: real\<bar> < 2 ^ 1024" by simp
qed

lemma float_of_int_4: "float_of_int 4 = Inr 4"
proof (rule float_of_int_finite)
  have "double_round 4 = of_int 4503599627370496 * 2 ^ 2 / 2 ^ 52"
    by (rule double_round_eval) simp_all
  then show "double_round (of_int 4) = 4" by simp
  show "\<bar>4 :: real\<bar> < 2 ^ 1024" by simp
qed

text \<open>\<open>14 / 2.4 * 1.2\<close> is the float just above 7, and \<open>4 / 3.0 * 1.2\<close> the float just below 1.6.\<close>

lemma uniform_quota_14: "uniform_quota 14 float_2_4 = Inr (Finite (7 + 1 / 2 ^ 50))"
proof -
  have q: "to_double (14 / float_2_4) = Finite (of_int 6567749456581974 * 2 ^ 2 / 2 ^ 52)"
    unfolding float_2_4_def
  proof (rule to_double_finite)
    show "double_round (14 / (5404319552844595 / 2251799813685248))
            = of_int 6567749456581974 * 2 ^ 2 / 2 ^ 52"
      by (rule double_round_eval) simp_all
    show "\<bar>real_of_int 6567749456581974 * 2 ^ 2 / 2 ^ 52\<bar> < 2 ^ 1024"
      by simp
  qed
  have t: "times_1_2 (Finite (of_int 6567749456581974 * 2 ^ 2 / 2 ^ 52))
             = Finite (of_int 7881299347898369 * 2 ^ 2 / 2 ^ 52)"
  proof (rule times_1_2_finite)
    show "double_round (of_int 6567749456581974 * 2 ^ 2 / 2 ^ 52
                          * (5404319552844595 / 4503599627370496))
            = of_int 7881299347898369 * 2 ^ 2 / 2 ^ 52"
      by (rule double_round_eval) simp_all
    show "\<bar>real_of_int 7881299347898369 * 2 ^ 2 / 2 ^ 52\<bar> < 2 ^ 1024"
      by simp
  qed
  have nz: "float_2_4 \<noteq> 0" by (simp add: float_2_4_def)
  have "uniform_quota 14 float_2_4 = Inr (Finite (of_int 7881299347898369 * 2 ^ 2 / 2 ^ 52))"
    unfolding uniform_quota_def float_of_int_14 float_truediv_def
    using nz by (simp only: sum.case if_False q t)
  then show ?thesis by simp
qed

lemma uniform_quota_4: "uniform_quota 4 3 = Inr (Finite (7205759403792793 / 4503599627370496))"
proof -
  have q: "to_double (4 / 3) = Finite (of_int 6004799503160661 * 2 ^ 0 / 2 ^ 52)"
  proof (rule to_double_finite)
    show "double_round (4 / 3) = of_int 6004799503160661 * 2 ^ 0 / 2 ^ 52"
      by (rule double_round_eval) simp_all
    show "\<bar>real_of_int 6004799503160661 * 2 ^ 0 / 2 ^ 52\<bar> < 2 ^ 1024"
      by simp
  qed
  have t: "times_1_2 (Finite (of_int 6004799503160661 * 2 ^ 0 / 2 ^ 52))
             = Finite (of_int 7205759403792793 * 2 ^ 0 / 2 ^ 52)"
  proof (rule times_1_2_finite)
    show "double_round (of_int 6004799503160661 * 2 ^ 0 / 2 ^ 52
                          * (5404319552844595 / 4503599627370496))
            = of_int 7205759403792793 * 2 ^ 0 / 2 ^ 52"
      by (rule double_round_eval) simp_all
    show "\<bar>real_of_int 7205759403792793 * 2 ^ 0 / 2 ^ 52\<bar> < 2 ^ 1024"
      by simp
  qed
  have nz: "(3::real) \<noteq> 0" by simp
  have "uniform_quota 4 3 = Inr (Finite (of_int 7205759403792793 * 2 ^ 0 / 2 ^ 52))"
    unfolding uniform_quota_def float_of_int_4 float_truediv_def
    using nz by (simp only: sum.case if_False q t)
  then show ?thesis by simp
qed

section \<open>RessourceDistributor\<close>

lemma apply_call_strategy [simp]: "strategy (apply_call c d) = strategy d"
  by (cases c) (simp_all add: consume_one_unit_def set_new_position_def)

lemma apply_call_quota [simp]:
  "ressources_to_consume_at_current_depth (apply_call c d) = ressources_to_consume_at_current_depth d"
  by (cases c) (simp_all add: consume_one_unit_def set_new_position_def)

lemma fold_calls_strategy: "strategy (fold apply_call calls d) = strategy d"
  by (induction calls arbitrary: d) simp_all

lemma fold_calls_quota:
  "ressources_to_consume_at_current_depth (fold apply_call calls d) = ressources_to_consume_at_current_depth d"
  by (induction calls arbitrary: d) simp_all

text \<open>
  C4, counterexample. With the tag \<open>LINEAR\<close> the constructor returns a distributor whose
  per-depth quota was never assigned, and the query after one consumed unit raises
  \<open>AttributeError\<close>: it does not return the comparison of the UNIFORM strategy.
\<close>

theorem unknown_strategy_counterexample:
  "distributor_init ''LINEAR'' 3 10 = Inr linear_distributor
   \<and> should_go_down_into_the_tree (consume_one_unit linear_distributor)
       = Inl (AttributeError ''ressources_to_consume_at_current_depth'')"
  by (simp add: distributor_init_def linear_distributor_def reset_def
      should_go_down_into_the_tree_def consume_one_unit_def Let_def)

text \<open>
  C4, amended. For every non-empty tag other than the two named ones the constructor
  succeeds without validation and keeps the tag, the per-depth quota stays unassigned,
  and after any calls of \<open>consume_one_unit\<close> and \<open>set_new_position\<close> the query
  \<open>should_go_down_into_the_tree\<close> takes the branch of the UNIFORM strategy and raises
  \<open>AttributeError\<close> on the missing quota.
\<close>

theorem unknown_strategy_attribute_error:
  assumes "tag \<noteq> []" and "tag \<noteq> ''ALL_FROM_ROOT''" and "tag \<noteq> ''UNIFORM''"
  shows "\<exists>d. distributor_init tag average_depth ressources = Inr d
           \<and> strategy d = tag
           \<and> ressources_to_consume_at_current_depth d = None
           \<and> should_go_down_into_the_tree (fold apply_call calls d)
               = Inl (AttributeError ''ressources_to_consume_at_current_depth'')"
  using assms
  by (simp add: distributor_init_def Let_def reset_def should_go_down_into_the_tree_def
      fold_calls_strategy fold_calls_quota)

theorem unknown_strategy_attribute_error_witness:
  "''LINEAR'' \<noteq> [] \<and> ''LINEAR'' \<noteq> ''ALL_FROM_ROOT'' \<and> ''LINEAR'' \<noteq> ''UNIFORM''
   \<and> (\<exists>d. distributor_init ''LINEAR'' 3 10 = Inr d \<and> strategy d = ''LINEAR''
           \<and> ressources_to_consume_at_current_depth d = None
           \<and> should_go_down_into_the_tree (fold apply_call [Consume_one_unit, Consume_one_unit] d)
               = Inl (AttributeError ''ressources_to_consume_at_current_depth''))"
  using unknown_strategy_attribute_error
          [of "''LINEAR''" 3 10 "[Consume_one_unit, Consume_one_unit]"]
  by simp

lemma units_at_depth_snoc:
  "units_at_depth (calls @ [Consume_one_unit]) = units_at_depth calls + 1"
  "units_at_depth (calls @ [Set_new_position depth]) = 0"
  by (simp_all add: units_at_depth_def)

lemma units_at_depth_all:
  assumes "\<forall>c \<in> set calls. c = Consume_one_unit"
  shows "units_at_depth calls = int (length calls)"
proof -
  have "takeWhile (\<lambda>c. c = Consume_one_unit) (rev calls) = rev calls"
    using assms by (simp add: takeWhile_eq_all_conv)
  then show ?thesis
    unfolding units_at_depth_def by (simp only: length_rev)
qed

lemma fold_calls_counter:
  "ressources_already_consumed_at_current_depth (fold apply_call calls d) =
     (if \<forall>c \<in> set calls. c = Consume_one_unit
      then ressources_already_consumed_at_current_depth d + int (length calls)
      else units_at_depth calls)"
proof (induction calls rule: rev_induct)
  case Nil
  then show ?case by simp
next
  case (snoc x xs)
  show ?case
  proof (cases x)
    case Consume_one_unit
    from snoc Consume_one_unit show ?thesis
      by (auto simp: consume_one_unit_def units_at_depth_snoc)
  next
    case (Set_new_position depth)
    with snoc show ?thesis
      by (simp add: set_new_position_def units_at_depth_snoc)
  qed
qed

lemma fold_calls_counter_fresh:
  assumes "ressources_already_consumed_at_current_depth d = 0"
  shows "ressources_already_consumed_at_current_depth (fold apply_call calls d)
           = units_at_depth calls"
proof (cases "\<forall>c \<in> set calls. c = Consume_one_unit")
  case True
  then have "units_at_depth calls = int (length calls)"
    by (rule units_at_depth_all)
  with True assms show ?thesis by (simp add: fold_calls_counter)
next
  case False
  have "ressources_already_consumed_at_current_depth (fold apply_call calls d)
          = (if \<forall>c \<in> set calls. c = Consume_one_unit
             then ressources_already_consumed_at_current_depth d + int (length calls)
             else units_at_depth calls)"
    by (rule fold_calls_counter)
  with False show ?thesis by (simp only: if_False)
qed

text \<open>
  C8. After any sequence of \<open>consume_one_unit\<close> and \<open>set_new_position\<close> calls: a
  distributor built with \<open>ALL_FROM_ROOT\<close> (or with the empty tag, which stands for it)
  answers \<open>False\<close>. A distributor built with \<open>UNIFORM\<close> holds in its counter the units
  consumed at the current depth, that is the \<open>consume_one_unit\<close> calls made since the
  last \<open>set_new_position\<close>, and answers whether they have reached the quota;
  \<open>set_new_position\<close> puts the counter back to 0. The quota is the float that the
  expression \<open>ressources / average_depth * 1.2\<close> evaluates to: the int converted to float,
  the float division, the float product with \<open>1.2\<close>, each rounded to binary64; the
  comparison of the counter with it is exact.
\<close>

theorem should_go_down_by_strategy:
  "(strategy_arg = [] \<or> strategy_arg = ''ALL_FROM_ROOT'' \<longrightarrow>
      (\<exists>d. distributor_init strategy_arg average_depth ressources = Inr d
         \<and> should_go_down_into_the_tree (fold apply_call calls d) = Inr False))
   \<and> (uniform_quota ressources average_depth = Inr quota \<longrightarrow>
      (\<exists>d. distributor_init ''UNIFORM'' average_depth ressources = Inr d
         \<and> ressources_already_consumed_at_current_depth (fold apply_call calls d)
             = units_at_depth calls
         \<and> should_go_down_into_the_tree (fold apply_call calls d)
             = Inr (int_ge (units_at_depth calls) quota)
         \<and> ressources_already_consumed_at_current_depth
             (set_new_position (fold apply_call calls d) depth) = 0
         \<and> units_at_depth (calls @ [Set_new_position depth]) = 0))
   \<and> (average_depth \<noteq> 0 \<and> \<bar>double_round (of_int ressources)\<bar> < 2 ^ 1024 \<longrightarrow>
        uniform_quota ressources average_depth
          = Inr (times_1_2 (to_double (double_round (of_int ressources) / average_depth))))"
proof (intro conjI impI)
  assume "strategy_arg = [] \<or> strategy_arg = ''ALL_FROM_ROOT''"
  then show "\<exists>d. distributor_init strategy_arg average_depth ressources = Inr d
         \<and> should_go_down_into_the_tree (fold apply_call calls d) = Inr False"
    by (auto simp add: distributor_init_def Let_def reset_def should_go_down_into_the_tree_def
        fold_calls_strategy)
next
  assume q: "uniform_quota ressources average_depth = Inr quota"
  define d where "d = \<lparr> strategy = ''UNIFORM'', ressources_to_consume = ressources,
                ressources_to_consume_at_current_depth = Some quota,
                current_depth = 1, ressources_already_consumed = 0,
                ressources_already_consumed_at_current_depth = 0 \<rparr>"
  have i: "distributor_init ''UNIFORM'' average_depth ressources = Inr d"
    by (simp add: distributor_init_def Let_def reset_def q d_def)
  have c: "ressources_already_consumed_at_current_depth (fold apply_call calls d)
             = units_at_depth calls"
    by (rule fold_calls_counter_fresh) (simp add: d_def)
  have s: "should_go_down_into_the_tree (fold apply_call calls d)
             = Inr (int_ge (units_at_depth calls) quota)"
    using c
    by (simp add: should_go_down_into_the_tree_def fold_calls_strategy fold_calls_quota d_def)
  have z: "ressources_already_consumed_at_current_depth
             (set_new_position (fold apply_call calls d) depth) = 0"
    by (simp add: set_new_position_def)
  have u: "units_at_depth (calls @ [Set_new_position depth]) = 0"
    by (rule units_at_depth_snoc)
  from i c s z u
  show "\<exists>d. distributor_init ''UNIFORM'' average_depth ressources = Inr d
         \<and> ressources_already_consumed_at_current_depth (fold apply_call calls d)
             = units_at_depth calls
         \<and> should_go_down_into_the_tree (fold apply_call calls d)
             = Inr (int_ge (units_at_depth calls) quota)
         \<and> ressources_already_consumed_at_current_depth
             (set_new_position (fold apply_call calls d) depth) = 0
         \<and> units_at_depth (calls @ [Set_new_position depth]) = 0"
    by blast
next
  assume a: "average_depth \<noteq> 0 \<and> \<bar>double_round (of_int ressources)\<bar> < 2 ^ 1024"
  then have "float_of_int ressources = Inr (double_round (of_int ressources))"
    by (intro float_of_int_finite) simp_all
  with a show "uniform_quota ressources average_depth
          = Inr (times_1_2 (to_double (double_round (of_int ressources) / average_depth)))"
    by (simp add: uniform_quota_def float_truediv_def)
qed

theorem should_go_down_by_strategy_witness:
  "(\<exists>d. distributor_init ''ALL_FROM_ROOT'' 3 4 = Inr d
         \<and> should_go_down_into_the_tree
              (fold apply_call [Consume_one_unit, Consume_one_unit, Consume_one_unit,
                                Consume_one_unit, Consume_one_unit] d) = Inr False)
   \<and> uniform_quota 14 float_2_4 = Inr (Finite (7 + 1 / 2 ^ 50))
   \<and> (\<exists>d. distributor_init ''UNIFORM'' float_2_4 14 = Inr d
         \<and> should_go_down_into_the_tree (fold apply_call seven_units d) = Inr False
         \<and> should_go_down_into_the_tree
              (fold apply_call (seven_units @ [Consume_one_unit]) d) = Inr True
         \<and> should_go_down_into_the_tree
              (fold apply_call (seven_units @ [Consume_one_unit, Set_new_position 2]) d) = Inr False)
   \<and> float_2_4 \<noteq> 0 \<and> \<bar>double_round (of_int 14)\<bar> < 2 ^ 1024
   \<and> times_1_2 (to_double (double_round (of_int 14) / float_2_4)) = Finite (7 + 1 / 2 ^ 50)"
proof -
  note t = should_go_down_by_strategy
  have a: "\<exists>d. distributor_init ''ALL_FROM_ROOT'' 3 4 = Inr d
         \<and> should_go_down_into_the_tree
              (fold apply_call [Consume_one_unit, Consume_one_unit, Consume_one_unit,
                                Consume_one_unit, Consume_one_unit] d) = Inr False"
    using t[of "''ALL_FROM_ROOT''" 3 4 "[Consume_one_unit, Consume_one_unit, Consume_one_unit,
                                           Consume_one_unit, Consume_one_unit]"]
    by blast
  note q = uniform_quota_14
  have u: "units_at_depth seven_units = 7" "units_at_depth (seven_units @ [Consume_one_unit]) = 8"
    "units_at_depth (seven_units @ [Consume_one_unit, Set_new_position 2]) = 0"
    by (simp_all add: units_at_depth_def seven_units_def)
  have g: "int_ge 7 (Finite (7 + 1 / 2 ^ 50)) = False" "int_ge 8 (Finite (7 + 1 / 2 ^ 50)) = True"
    "int_ge 0 (Finite (7 + 1 / 2 ^ 50)) = False"
    by (simp_all add: int_ge_def)
  from t[of _ float_2_4 14 seven_units "Finite (7 + 1 / 2 ^ 50)"] q
  obtain d where d: "distributor_init ''UNIFORM'' float_2_4 14 = Inr d"
    and d7: "should_go_down_into_the_tree (fold apply_call seven_units d)
               = Inr (int_ge (units_at_depth seven_units) (Finite (7 + 1 / 2 ^ 50)))"
    by blast
  from t[of _ float_2_4 14 "seven_units @ [Consume_one_unit]" "Finite (7 + 1 / 2 ^ 50)"] q d
  have d8: "should_go_down_into_the_tree (fold apply_call (seven_units @ [Consume_one_unit]) d)
               = Inr (int_ge (units_at_depth (seven_units @ [Consume_one_unit]))
                        (Finite (7 + 1 / 2 ^ 50)))"
    by auto
  from t[of _ float_2_4 14 "seven_units @ [Consume_one_unit, Set_new_position 2]"
           "Finite (7 + 1 / 2 ^ 50)"] q d
  have d0: "should_go_down_into_the_tree
              (fold apply_call (seven_units @ [Consume_one_unit, Set_new_position 2]) d)
               = Inr (int_ge (units_at_depth (seven_units @ [Consume_one_unit, Set_new_position 2]))
                        (Finite (7 + 1 / 2 ^ 50)))"
    by auto
  have b: "\<exists>d. distributor_init ''UNIFORM'' float_2_4 14 = Inr d
         \<and> should_go_down_into_the_tree (fold apply_call seven_units d) = Inr False
         \<and> should_go_down_into_the_tree
              (fold apply_call (seven_units @ [Consume_one_unit]) d) = Inr True
         \<and> should_go_down_into_the_tree
              (fold apply_call (seven_units @ [Consume_one_unit, Set_new_position 2]) d) = Inr False"
    using d d7 d8 d0 unfolding u g by blast
  have h: "float_2_4 \<noteq> 0" "\<bar>double_round (of_int 14)\<bar> < 2 ^ 1024"
    by (simp_all add: float_2_4_def double_14)
  from t[of _ float_2_4 14] h q
  have c: "times_1_2 (to_double (double_round (of_int 14) / float_2_4)) = Finite (7 + 1 / 2 ^ 50)"
    by simp
  from a q b h c show ?thesis by blast
qed

section \<open>EvalBuffer\<close>

lemma force_eval_empty: "buffer eb = [] \<Longrightarrow> force_eval eb = eb"
  by (simp add: force_eval_def)

lemma fold_record_score_buffer: "buffer (fold record_score es eb) = buffer eb"
  by (induction es arbitrary: eb) (auto simp: record_score_def Let_def)

lemma fold_record_score_calls: "scorer_calls (fold record_score es eb) = scorer_calls eb"
  by (induction es arbitrary: eb) (auto simp: record_score_def Let_def)

lemma fold_record_score_history: "score_history (fold record_score es eb) = score_history eb"
  by (induction es arbitrary: eb) (auto simp: record_score_def Let_def)

lemma fold_record_score_results: "results (fold record_score es eb) = results eb @ es"
  by (induction es arbitrary: eb) (auto simp: record_score_def Let_def)

lemma fold_record_score_best:
  "best_score (fold record_score es eb) = fold (\<lambda>e b. if fst e > b then fst e else b) es (best_score eb)"
  by (induction es arbitrary: eb) (auto simp: record_score_def Let_def)

lemma Max_insert_insert:
  "finite S \<Longrightarrow> Max (insert (b::real) (insert a S)) = Max (insert (max b a) S)"
  by (cases "S = {}") (simp_all add: max.assoc)

lemma fold_max_is_Max:
  "fold (\<lambda>e b. if fst e > b then fst e else b) es (b0::real) = Max (insert b0 (fst ` set es))"
proof (induction es arbitrary: b0)
  case Nil
  then show ?case by simp
next
  case (Cons e es)
  have "(if b0 < fst e then fst e else b0) = max b0 (fst e)"
    by (simp add: max_def)
  moreover have "Max (insert b0 (fst ` set (e # es))) = Max (insert (max b0 (fst e)) (fst ` set es))"
    using Max_insert_insert[of "fst ` set es" b0 "fst e"] by simp
  ultimately show ?case
    using Cons.IH[of "max b0 (fst e)"] by simp
qed

lemma record_score_fields:
  "best_score (record_score e eb) = (if fst e > best_score eb then fst e else best_score eb)"
  "best_sentence (record_score e eb)
     = (if fst e > best_score eb then g_text (fst (snd e)) else best_sentence eb)"
  by (cases e; simp add: record_score_def Let_def)+

lemma fold_record_score_sentence:
  "(best_score (fold record_score es eb) = best_score eb
      \<and> best_sentence (fold record_score es eb) = best_sentence eb)
   \<or> (best_score (fold record_score es eb) > best_score eb
      \<and> (\<exists>e \<in> set es. fst e = best_score (fold record_score es eb)
            \<and> best_sentence (fold record_score es eb) = g_text (fst (snd e))))"
proof (induction es arbitrary: eb)
  case Nil
  then show ?case by simp
next
  case (Cons e es)
  define eb1 where "eb1 = record_score e eb"
  define final where "final = fold record_score es eb1"
  have f: "fold record_score (e # es) eb = final"
    by (simp add: final_def eb1_def)
  have ih: "(best_score final = best_score eb1 \<and> best_sentence final = best_sentence eb1)
      \<or> (best_score final > best_score eb1
          \<and> (\<exists>x \<in> set es. fst x = best_score final \<and> best_sentence final = g_text (fst (snd x))))"
    using Cons.IH[of eb1] by (simp add: final_def)
  show ?case
  proof (cases "fst e > best_score eb")
    case True
    then have b1: "best_score eb1 = fst e" "best_sentence eb1 = g_text (fst (snd e))"
      by (simp_all add: eb1_def record_score_fields)
    from ih have "best_score final > best_score eb
      \<and> (\<exists>x \<in> set (e # es). fst x = best_score final \<and> best_sentence final = g_text (fst (snd x)))"
    proof
      assume "best_score final = best_score eb1 \<and> best_sentence final = best_sentence eb1"
      with b1 True show ?thesis by simp
    next
      assume "best_score final > best_score eb1
          \<and> (\<exists>x \<in> set es. fst x = best_score final \<and> best_sentence final = g_text (fst (snd x)))"
      with b1 True show ?thesis by auto
    qed
    then show ?thesis unfolding f by blast
  next
    case False
    then have b1: "best_score eb1 = best_score eb" "best_sentence eb1 = best_sentence eb"
      by (simp_all add: eb1_def record_score_fields)
    from ih show ?thesis unfolding f b1 by auto
  qed
qed

lemma set_zip_index:
  "e \<in> set (zip xs ys) \<Longrightarrow> \<exists>i < min (length xs) (length ys). e = (xs ! i, ys ! i)"
  by (auto simp: set_zip)

lemma force_eval_buffer: "buffer (force_eval eb) = []"
  by (simp add: force_eval_def Let_def fold_record_score_buffer)

lemma buffer_invariant:
  "reachable_buffer eb \<Longrightarrow> buffer eb = [] \<or> int (length (buffer eb)) \<noteq> buffer_size eb"
proof (induction rule: reachable_buffer.induct)
  case (fresh bsize scorer)
  then show ?case by (simp add: evalbuffer_init_def)
next
  case (after_add eb owner leaf)
  then show ?case
    by (auto simp: add_def Let_def force_eval_buffer force_eval_empty)
next
  case (after_force_eval eb)
  then show ?case by (simp add: force_eval_buffer)
next
  case (after_pop_results eb)
  then show ?case by (simp add: pop_results_def)
qed

text \<open>
  C5. \<open>add\<close> of a dead-end leaf appends the triple of reward 0, the leaf and its owner
  to the results, and the leaf does not join the pending entries: whatever call the
  scorer receives is on the texts of the entries that were pending before. In every state
  that a buffer reaches from a fresh one, \<open>add\<close> of a dead-end leaf does nothing else
  than this append, and the scorer receives no call at all.
\<close>

theorem add_dead_end_bypasses_scorer:
  assumes "g_dead_end leaf"
  shows "take (Suc (length (results eb))) (results (add eb owner leaf))
           = results eb @ [(0, leaf, owner)]
         \<and> (scorer_calls (add eb owner leaf) = scorer_calls eb
             \<or> scorer_calls (add eb owner leaf)
                 = scorer_calls eb @ [map (\<lambda>p. g_text (fst p)) (buffer eb)])
         \<and> (reachable_buffer eb \<longrightarrow>
               add eb owner leaf = eb\<lparr> results := results eb @ [(0, leaf, owner)] \<rparr>
               \<and> buffer (add eb owner leaf) = buffer eb
               \<and> scorer_calls (add eb owner leaf) = scorer_calls eb)"
proof (intro conjI impI)
  define eb1 where "eb1 = eb\<lparr> results := results eb @ [(0, leaf, owner)] \<rparr>"
  have a: "add eb owner leaf = (if int (length (buffer eb1)) = buffer_size eb1
                                then force_eval eb1 else eb1)"
    using assms by (simp add: add_def eb1_def)
  have f: "buffer eb1 = buffer eb" "results eb1 = results eb @ [(0, leaf, owner)]"
      "scorer_calls eb1 = scorer_calls eb" "lm_scorer eb1 = lm_scorer eb"
    by (simp_all add: eb1_def)
  have fe: "results (force_eval eb1)
              = results eb1 @ zip (lm_scorer eb1 (map (\<lambda>p. g_text (fst p)) (buffer eb1))) (buffer eb1)
            \<and> (scorer_calls (force_eval eb1) = scorer_calls eb1
                \<or> scorer_calls (force_eval eb1)
                    = scorer_calls eb1 @ [map (\<lambda>p. g_text (fst p)) (buffer eb1)])"
  proof (cases "buffer eb1 = []")
    case True
    then show ?thesis by (simp add: force_eval_empty)
  next
    case False
    have t: "map (\<lambda>(grammar_leaf, _). g_text grammar_leaf) (buffer eb1)
               = map (\<lambda>p. g_text (fst p)) (buffer eb1)"
      by (simp add: case_prod_beta)
    from False show ?thesis
      by (simp add: force_eval_def Let_def t fold_record_score_results
          fold_record_score_calls)
  qed
  show "take (Suc (length (results eb))) (results (add eb owner leaf))
           = results eb @ [(0, leaf, owner)]"
    using fe by (simp add: a f)
  show "scorer_calls (add eb owner leaf) = scorer_calls eb
         \<or> scorer_calls (add eb owner leaf)
             = scorer_calls eb @ [map (\<lambda>p. g_text (fst p)) (buffer eb)]"
    using fe by (auto simp: a f)
  assume r: "reachable_buffer eb"
  from buffer_invariant[OF r]
  have e: "add eb owner leaf = eb\<lparr> results := results eb @ [(0, leaf, owner)] \<rparr>"
    using assms by (auto simp: add_def Let_def force_eval_empty)
  then show "add eb owner leaf = eb\<lparr> results := results eb @ [(0, leaf, owner)] \<rparr>" .
  from e show "buffer (add eb owner leaf) = buffer eb" by simp
  from e show "scorer_calls (add eb owner leaf) = scorer_calls eb" by simp
qed

theorem add_dead_end_bypasses_scorer_witness:
  "reachable_buffer (add (evalbuffer_init 2 half_scorer) 0 g_leaf_a)
   \<and> g_dead_end g_dead
   \<and> results (add (add (evalbuffer_init 2 half_scorer) 0 g_leaf_a) 1 g_dead) = [(0, g_dead, 1)]
   \<and> buffer (add (add (evalbuffer_init 2 half_scorer) 0 g_leaf_a) 1 g_dead) = [(g_leaf_a, 0)]
   \<and> scorer_calls (add (add (evalbuffer_init 2 half_scorer) 0 g_leaf_a) 1 g_dead) = []"
proof -
  define eb1 where "eb1 = add (evalbuffer_init 2 half_scorer) 0 g_leaf_a"
  have r: "reachable_buffer eb1"
    unfolding eb1_def by (intro reachable_buffer.intros)
  have d: "g_dead_end g_dead"
    by simp
  have f: "results eb1 = []" "buffer eb1 = [(g_leaf_a, 0)]" "scorer_calls eb1 = []"
    by (simp_all add: eb1_def add_def evalbuffer_init_def Let_def)
  from add_dead_end_bypasses_scorer[OF d, of eb1 1] r
  have x: "add eb1 1 g_dead = eb1\<lparr> results := results eb1 @ [(0, g_dead, 1)] \<rparr>"
    by blast
  have "results (add eb1 1 g_dead) = [(0, g_dead, 1)]
      \<and> buffer (add eb1 1 g_dead) = [(g_leaf_a, 0)]
      \<and> scorer_calls (add eb1 1 g_dead) = []"
    unfolding x by (simp add: f)
  with r d show ?thesis
    unfolding eb1_def by blast
qed

text \<open>
  C6. With nothing pending \<open>force_eval\<close> changes nothing. With a pending entry it makes
  one call to the scorer, on the texts of the pending leaves in their order; it appends to
  the results the scores paired with the pending entries position by position, so that the
  \<open>i\<close>-th new result holds the \<open>i\<close>-th score with the \<open>i\<close>-th pending leaf and owner;
  it appends the scores to the history; the best score becomes the greatest of the old best
  and the paired scores, and the best sentence changes only together with it, to the text
  of a leaf paired with the new best score; the pending entries are cleared.
\<close>

theorem force_eval_pairs_positionally:
  "(buffer eb = [] \<longrightarrow> force_eval eb = eb)
   \<and> (buffer eb \<noteq> [] \<longrightarrow>
      scorer_calls (force_eval eb) = scorer_calls eb @ [map (\<lambda>p. g_text (fst p)) (buffer eb)]
      \<and> results (force_eval eb)
          = results eb @ zip (lm_scorer eb (map (\<lambda>p. g_text (fst p)) (buffer eb))) (buffer eb)
      \<and> (\<forall>i < min (length (lm_scorer eb (map (\<lambda>p. g_text (fst p)) (buffer eb)))) (length (buffer eb)).
            results (force_eval eb) ! (length (results eb) + i)
              = (lm_scorer eb (map (\<lambda>p. g_text (fst p)) (buffer eb)) ! i,
                 fst (buffer eb ! i), snd (buffer eb ! i)))
      \<and> score_history (force_eval eb)
          = score_history eb @ lm_scorer eb (map (\<lambda>p. g_text (fst p)) (buffer eb))
      \<and> best_score (force_eval eb)
          = Max (insert (best_score eb)
                  (set (take (length (buffer eb)) (lm_scorer eb (map (\<lambda>p. g_text (fst p)) (buffer eb))))))
      \<and> ((best_score (force_eval eb) = best_score eb
             \<and> best_sentence (force_eval eb) = best_sentence eb)
          \<or> (best_score (force_eval eb) > best_score eb
             \<and> (\<exists>i < min (length (lm_scorer eb (map (\<lambda>p. g_text (fst p)) (buffer eb)))) (length (buffer eb)).
                   lm_scorer eb (map (\<lambda>p. g_text (fst p)) (buffer eb)) ! i = best_score (force_eval eb)
                   \<and> best_sentence (force_eval eb) = g_text (fst (buffer eb ! i)))))
      \<and> buffer (force_eval eb) = [])"
proof (intro conjI impI)
  assume "buffer eb = []"
  then show "force_eval eb = eb" by (rule force_eval_empty)
next
  assume ne: "buffer eb \<noteq> []"
  define texts where "texts = map (\<lambda>p. g_text (fst p)) (buffer eb)"
  define scores where "scores = lm_scorer eb texts"
  define eb2 where "eb2 = eb\<lparr> scorer_calls := scorer_calls eb @ [texts],
                              score_history := score_history eb @ scores \<rparr>"
  have t: "map (\<lambda>(grammar_leaf, _). g_text grammar_leaf) (buffer eb) = texts"
    by (simp add: texts_def case_prod_beta)
  have fe: "force_eval eb = (fold record_score (zip scores (buffer eb)) eb2)\<lparr> buffer := [] \<rparr>"
    using ne by (simp add: force_eval_def Let_def t scores_def eb2_def)
  show "scorer_calls (force_eval eb) = scorer_calls eb @ [texts]"
    by (simp add: fe fold_record_score_calls eb2_def)
  show res: "results (force_eval eb) = results eb @ zip scores (buffer eb)"
    by (simp add: fe fold_record_score_results eb2_def)
  show "\<forall>i < min (length scores) (length (buffer eb)).
          results (force_eval eb) ! (length (results eb) + i)
            = (scores ! i, fst (buffer eb ! i), snd (buffer eb ! i))"
    by (simp add: res nth_append)
  show "score_history (force_eval eb) = score_history eb @ scores"
    by (simp add: fe fold_record_score_history eb2_def)
  have "fst ` set (zip scores (buffer eb)) = set (take (length (buffer eb)) scores)"
    by (metis map_fst_zip_take set_map min.commute take_all_iff linorder_le_cases take_take min_def)
  then show "best_score (force_eval eb) = Max (insert (best_score eb) (set (take (length (buffer eb)) scores)))"
    by (simp add: fe fold_record_score_best fold_max_is_Max eb2_def)
  have b2: "best_score eb2 = best_score eb" "best_sentence eb2 = best_sentence eb"
    by (simp_all add: eb2_def)
  from fold_record_score_sentence[of "zip scores (buffer eb)" eb2]
  show "(best_score (force_eval eb) = best_score eb \<and> best_sentence (force_eval eb) = best_sentence eb)
        \<or> (best_score (force_eval eb) > best_score eb
           \<and> (\<exists>i < min (length scores) (length (buffer eb)).
                 scores ! i = best_score (force_eval eb)
                 \<and> best_sentence (force_eval eb) = g_text (fst (buffer eb ! i))))"
  proof
    assume "best_score (fold record_score (zip scores (buffer eb)) eb2) = best_score eb2 \<and>
            best_sentence (fold record_score (zip scores (buffer eb)) eb2) = best_sentence eb2"
    then show ?thesis by (simp add: fe b2)
  next
    assume a: "best_score eb2 < best_score (fold record_score (zip scores (buffer eb)) eb2) \<and>
            (\<exists>e\<in>set (zip scores (buffer eb)).
                fst e = best_score (fold record_score (zip scores (buffer eb)) eb2) \<and>
                best_sentence (fold record_score (zip scores (buffer eb)) eb2) = g_text (fst (snd e)))"
    then obtain e where e: "e \<in> set (zip scores (buffer eb))"
        "fst e = best_score (fold record_score (zip scores (buffer eb)) eb2)"
        "best_sentence (fold record_score (zip scores (buffer eb)) eb2) = g_text (fst (snd e))"
      by blast
    from set_zip_index[OF e(1)] obtain i where
      i: "i < min (length scores) (length (buffer eb))" "e = (scores ! i, buffer eb ! i)"
      by blast
    from a e i show ?thesis
      by (auto simp: fe b2 intro!: exI[of _ i])
  qed
  show "buffer (force_eval eb) = []"
    by (simp add: fe)
qed

theorem force_eval_pairs_positionally_witness:
  "force_eval (evalbuffer_init 3 half_scorer) = evalbuffer_init 3 half_scorer
   \<and> buffer pending_two \<noteq> []
   \<and> scorer_calls (force_eval pending_two) = [[''b'', ''a'']]
   \<and> results (force_eval pending_two) = [(1 / 4, g_leaf_b, 1), (1 / 2, g_leaf_a, 2)]
   \<and> score_history (force_eval pending_two) = [1 / 4, 1 / 2]
   \<and> best_score (force_eval pending_two) = 1 / 2
   \<and> buffer (force_eval pending_two) = []"
proof -
  have e: "buffer (evalbuffer_init 3 half_scorer) = []"
    by (simp add: evalbuffer_init_def)
  have p: "buffer pending_two \<noteq> []" "buffer pending_two = [(g_leaf_b, 1), (g_leaf_a, 2)]"
      "lm_scorer pending_two = half_scorer" "results pending_two = []"
      "score_history pending_two = []" "scorer_calls pending_two = []"
      "best_score pending_two = - 1"
    by (simp_all add: pending_two_def evalbuffer_init_def)
  have sc: "half_scorer [''b'', ''a''] = [1 / 4, 1 / 2]"
    by (simp add: half_scorer_def)
  from force_eval_pairs_positionally[of "evalbuffer_init 3 half_scorer"] e
  have "force_eval (evalbuffer_init 3 half_scorer) = evalbuffer_init 3 half_scorer"
    by blast
  moreover from force_eval_pairs_positionally[of pending_two] p(1)
  have "scorer_calls (force_eval pending_two) = [[''b'', ''a'']]
      \<and> results (force_eval pending_two) = [(1 / 4, g_leaf_b, 1), (1 / 2, g_leaf_a, 2)]
      \<and> score_history (force_eval pending_two) = [1 / 4, 1 / 2]
      \<and> best_score (force_eval pending_two) = 1 / 2
      \<and> buffer (force_eval pending_two) = []"
    by (simp add: p sc)
  ultimately show ?thesis using p(1) by blast
qed

section \<open>Selection\<close>

lemma max_loop_not_zero_division:
  "\<forall>x \<in> set xs. key x \<noteq> Inl ZeroDivisionError \<Longrightarrow> max_loop key best k xs \<noteq> Inl ZeroDivisionError"
  by (induction xs arbitrary: best k) (auto split: sum.splits)

lemma py_max_not_zero_division:
  "\<forall>x \<in> set xs. key x \<noteq> Inl ZeroDivisionError \<Longrightarrow> py_max key xs \<noteq> Inl ZeroDivisionError"
  by (cases xs) (auto simp: py_max_def max_loop_not_zero_division split: sum.splits)

lemma ucb_zero_division_iff:
  "single_player_ucb child par c d = Inl ZeroDivisionError \<longleftrightarrow> count child = 0"
  by (simp add: single_player_ucb_def Let_def)

lemma first_unvisited_None: "first_unvisited h cs = None \<longleftrightarrow> (\<forall>c \<in> set cs. count (h ! c) \<noteq> 0)"
  by (auto simp: first_unvisited_def find_None_iff)

lemma first_unvisited_Some:
  "first_unvisited h cs = Some child \<Longrightarrow>
     \<exists>i < length cs. cs ! i = child \<and> count (h ! child) = 0 \<and> (\<forall>j < i. count (h ! (cs ! j)) \<noteq> 0)"
  by (auto simp: first_unvisited_def find_Some_iff)

lemma ucb_candidates_visited: "c \<in> set (ucb_candidates h cs) \<Longrightarrow> count (h ! c) \<noteq> 0"
proof (cases "first_unvisited h cs")
  case None
  assume "c \<in> set (ucb_candidates h cs)"
  with None have "c \<in> set cs" by (simp add: ucb_candidates_def)
  with None show ?thesis by (simp add: first_unvisited_None)
next
  case (Some child)
  assume "c \<in> set (ucb_candidates h cs)"
  with Some show ?thesis by (simp add: ucb_candidates_def)
qed

text \<open>
  C9. For a child of positive count the value that \<open>single_player_ucb\<close> returns with the
  constants 1 and 100 is the formula of the specification, and it returns that value
  whenever the count of the parent is at least that of the child and the variance term is
  not negative (floats taken as reals). The selection policy never applies the formula
  to a child of count 0: the children it compares all have a count other than 0, it
  never raises the division by zero, and when some child has count 0 it returns the first
  such child, in child order, with no child left to compare.
\<close>

theorem single_player_ucb_formula:
  "(count c > 0 \<longrightarrow>
      (\<forall>v. single_player_ucb c p 1 100 = Inr v \<longrightarrow> v = ucb_formula c p 1 100)
      \<and> (count p \<ge> count c
           \<and> sum_of_square_rewards c - of_int (count c) * (mean c) ^ 2 + 100 \<ge> 0
         \<longrightarrow> single_player_ucb c p 1 100 = Inr (ucb_formula c p 1 100)))
   \<and> (\<forall>x \<in> set (ucb_candidates h cs). count (h ! x) \<noteq> 0)
   \<and> selection_policy h n \<noteq> Inl ZeroDivisionError
   \<and> (\<forall>child. children h n = Inr cs \<and> first_unvisited h cs = Some child \<longrightarrow>
        selection_policy h n = Inr child \<and> ucb_candidates h cs = []
        \<and> (\<exists>i < length cs. cs ! i = child \<and> count (h ! child) = 0
              \<and> (\<forall>j < i. count (h ! (cs ! j)) \<noteq> 0)))"
proof (intro conjI impI allI)
  fix v
  assume "count c > 0" "single_player_ucb c p 1 100 = Inr v"
  then show "v = ucb_formula c p 1 100"
    by (auto simp: single_player_ucb_def ucb_formula_def mean_def Let_def split: if_splits)
next
  assume pos: "count c > 0"
    and ok: "count p \<ge> count c \<and> sum_of_square_rewards c - of_int (count c) * (mean c) ^ 2 + 100 \<ge> 0"
  define ratio :: real where "ratio = of_int (count p) / of_int (count c)"
  define spread where "spread = (sum_of_square_rewards c
      - of_int (count c) * (sum_rewards c / of_int (count c)) ^ 2 + 100) / of_int (count c)"
  have r1: "ratio \<ge> 1"
    using pos ok by (simp add: ratio_def)
  then have r: "\<not> ratio \<le> 0" "\<not> 1 * ln ratio < 0"
    by simp_all
  have sp: "\<not> spread < 0"
    using pos ok by (simp add: spread_def mean_def not_less)
  have nz: "count c \<noteq> 0"
    using pos by simp
  have "single_player_ucb c p 1 100
          = Inr (sum_rewards c / of_int (count c) + sqrt (1 * ln ratio) + sqrt spread)"
    unfolding single_player_ucb_def Let_def ratio_def[symmetric] spread_def[symmetric]
    using nz r sp by simp
  then show "single_player_ucb c p 1 100 = Inr (ucb_formula c p 1 100)"
    by (simp add: ucb_formula_def mean_def ratio_def spread_def)
next
  show "\<forall>x \<in> set (ucb_candidates h cs). count (h ! x) \<noteq> 0"
    using ucb_candidates_visited by blast
next
  show "selection_policy h n \<noteq> Inl ZeroDivisionError"
    by (auto simp: selection_policy_def children_def not_expanded_yet_def ucb_zero_division_iff
        dest: ucb_candidates_visited intro!: py_max_not_zero_division
        split: sum.splits option.splits list.splits)
next
  fix child
  assume a: "children h n = Inr cs \<and> first_unvisited h cs = Some child"
  then show "selection_policy h n = Inr child" 
    by (simp add: selection_policy_def)
  from a show "ucb_candidates h cs = []"
    by (simp add: ucb_candidates_def)
  from a show "\<exists>i < length cs. cs ! i = child \<and> count (h ! child) = 0
              \<and> (\<forall>j < i. count (h ! (cs ! j)) \<noteq> 0)"
    using first_unvisited_Some by blast
qed

theorem single_player_ucb_formula_witness:
  "count ucb_child > 0 \<and> count ucb_parent \<ge> count ucb_child
   \<and> single_player_ucb ucb_child ucb_parent 1 100 = Inr (1 / 2 + sqrt (ln 2) + sqrt 50)
   \<and> children store_once 0 = Inr [1, 2] \<and> first_unvisited store_once [1, 2] = Some 1
   \<and> selection_policy store_once 0 = Inr 1"
proof -
  have a: "count ucb_child > 0" "count ucb_parent \<ge> count ucb_child"
      "sum_of_square_rewards ucb_child - of_int (count ucb_child) * (mean ucb_child) ^ 2 + 100 \<ge> 0"
    by (simp_all add: ucb_child_def ucb_parent_def new_cnode_def mean_def power2_eq_square)
  have f: "ucb_formula ucb_child ucb_parent 1 100 = 1 / 2 + sqrt (ln 2) + sqrt 50"
    by (simp add: ucb_formula_def mean_def ucb_child_def ucb_parent_def new_cnode_def
        power2_eq_square)
  have c: "children store_once 0 = Inr [1, 2]" "first_unvisited store_once [1, 2] = Some 1"
    by (simp_all add: children_def store_once_def first_unvisited_def new_cnode_def)
  from single_player_ucb_formula[of ucb_child ucb_parent store_once "[1, 2]" 0] a c
  have "single_player_ucb ucb_child ucb_parent 1 100 = Inr (ucb_formula ucb_child ucb_parent 1 100)"
    and "selection_policy store_once 0 = Inr 1"
    by blast+
  with a c f show ?thesis by simp
qed

section \<open>Evaluation of the two searches\<close>

text \<open>
  The loops are unfolded one pass at a time, by rules whose premises decide the loop
  test, and \<open>and_then\<close> is evaluated from its first argument on.
\<close>

lemma and_then_simps [simp]:
  "and_then None f = None"
  "and_then (Some (Inl e)) f = Some (Inl e)"
  "and_then (Some (Inr x)) f = f x"
  by (simp_all add: and_then_def)

lemma and_then_weak_cong: "m = m' \<Longrightarrow> and_then m f = and_then m' f"
  by simp

lemma selection_loop_stop: "is_terminal h node \<Longrightarrow> selection_loop h node = Some (Inr (h, node))"
  by (subst selection_loop.simps) simp

lemma selection_loop_step:
  "\<not> is_terminal h node \<Longrightarrow>
   selection_loop h node =
     (case selection_policy h node of
        Inl e \<Rightarrow> Some (Inl e)
      | Inr nxt \<Rightarrow> selection_loop (visit h nxt) nxt)"
  by (subst selection_loop.simps) simp

lemma simulate_stop: "g_terminal g \<Longrightarrow> simulate rc k g = Some (g, k)"
  by (subst simulate.simps) simp

lemma simulate_step: "\<not> g_terminal g \<Longrightarrow> simulate rc k g = simulate rc (Suc k) (rc k g)"
  by (subst simulate.simps) simp

lemma search_loop_stop:
  "g_terminal (reference_node (nodes s ! r)) \<or> solved (nodes s ! r)
     \<or> \<not> still_has_ressources (ressource_distributor s)
   \<Longrightarrow> search_loop rc s r depth = Some (Inr s)"
  by (subst search_loop.simps) auto

lemma search_loop_step:
  "\<not> g_terminal (reference_node (nodes s ! r)) \<Longrightarrow> \<not> solved (nodes s ! r)
     \<Longrightarrow> still_has_ressources (ressource_distributor s)
   \<Longrightarrow> search_loop rc s r depth =
       (case iteration rc s r depth of
              None \<Rightarrow> None
            | Some (Inl e) \<Rightarrow> Some (Inl e)
            | Some (Inr (s1, counter_root1, depth1)) \<Rightarrow> search_loop rc s1 counter_root1 depth1)"
  by (subst search_loop.simps) simp

lemma g_chain_fields [simp]: "g_terminal g_chain = False" "g_children g_chain = [g_pair]"
  by (simp_all add: g_chain_def)

lemmas run_defs =
     single_search_def search_loop_step search_loop_stop still_has_ressources_def
     iteration_def selection_phase_def visit_def Let_def
     selection_loop_stop selection_loop_step is_terminal_def new_cnode_def expansion_def expand_def
     selection_policy_def children_def first_unvisited_def ucb_candidates_def py_max_def
     returns_def simulate_stop simulate_step first_child_def add_def evalbuffer_init_def
     pop_and_backpropagate_def pop_results_def should_go_down_into_the_tree_def go_down_def
     set_new_position_def set_as_solved.simps backpropagate_frozen backpropagate_unfrozen
     power2_eq_square consume_one_unit_def upt_rec force_eval_def half_scorer_def
     record_score_def int_ge_def

lemma lazy_run:
  "search first_child 3 (evalbuffer_init 2 half_scorer) ''ALL_FROM_ROOT'' 1 g_pair 1
     = Some (Inr (''a'', 1 / 2, 0, end_lazy))"
  by (simp add: search_def distributor_init_def reset_def end_lazy_def run_defs
      cong: and_then_weak_cong)

lemma uniform_run:
  "search first_child 3 (evalbuffer_init 1 half_scorer) ''UNIFORM'' 1 g_chain 4
     = Some (Inr (''a'', 1 / 2, 0, uniform_end))"
  by (simp add: search_def distributor_init_def uniform_quota_4 reset_def uniform_end_def
      run_defs cong: and_then_weak_cong)

lemma uniform_first_pass:
  "iteration first_child uniform_start 0 1 = Some (Inr (uniform_first, 0, 1))"
  by (simp add: uniform_start_def uniform_first_def run_defs cong: and_then_weak_cong)

section \<open>The visit counts along a search\<close>

lemma node_ok_iff:
  "node_ok E h n \<longleftrightarrow>
     0 \<le> count (h ! n)
        \<and> (\<forall>p. parent (h ! n) = Some p \<longrightarrow> p < length h \<and> pair_ok E h n p)
        \<and> (\<forall>cs c. children_field (h ! n) = Some cs \<longrightarrow> c \<in> set cs \<longrightarrow>
              c < length h \<and> parent (h ! c) = Some n)"
  unfolding node_ok_def
  by (cases "parent (h ! n)"; cases "children_field (h ! n)"; simp; blast)

lemma counts_ordered_iff:
  "counts_ordered E h \<longleftrightarrow>
     (\<forall>n < length h. 0 \<le> count (h ! n)
        \<and> (\<forall>p. parent (h ! n) = Some p \<longrightarrow> p < length h \<and> pair_ok E h n p)
        \<and> (\<forall>cs c. children_field (h ! n) = Some cs \<longrightarrow> c \<in> set cs \<longrightarrow>
              c < length h \<and> parent (h ! c) = Some n))"
  unfolding counts_ordered_def node_ok_iff ..

lemma counts_ordered_count: "counts_ordered E h \<Longrightarrow> n < length h \<Longrightarrow> 0 \<le> count (h ! n)"
  unfolding counts_ordered_iff by blast

lemma counts_ordered_parent:
  "counts_ordered E h \<Longrightarrow> n < length h \<Longrightarrow> parent (h ! n) = Some p \<Longrightarrow>
     p < length h \<and> pair_ok E h n p"
  unfolding counts_ordered_iff by blast

lemma counts_ordered_child:
  "counts_ordered E h \<Longrightarrow> n < length h \<Longrightarrow> children_field (h ! n) = Some cs \<Longrightarrow> c \<in> set cs \<Longrightarrow>
     c < length h \<and> parent (h ! c) = Some n"
  unfolding counts_ordered_iff by blast

lemma counts_orderedI:
  assumes "\<And>n. n < length h \<Longrightarrow> 0 \<le> count (h ! n)"
    and "\<And>n p. n < length h \<Longrightarrow> parent (h ! n) = Some p \<Longrightarrow> p < length h"
    and "\<And>n p. n < length h \<Longrightarrow> parent (h ! n) = Some p \<Longrightarrow> pair_ok E h n p"
    and "\<And>n cs c. n < length h \<Longrightarrow> children_field (h ! n) = Some cs \<Longrightarrow> c \<in> set cs
            \<Longrightarrow> c < length h \<and> parent (h ! c) = Some n"
  shows "counts_ordered E h"
  unfolding counts_ordered_iff using assms by blast

text \<open>
  The pair condition depends on two counts and two flags only; it survives when the
  count of the parent grows, when a flag is raised and when \<open>E\<close> grows.
\<close>

lemma pair_ok_transfer:
  assumes "pair_ok E h n p"
    and "count (h' ! n) \<le> count (h ! n)" and "count (h ! p) \<le> count (h' ! p)"
    and "freeze (h ! p) \<longrightarrow> freeze (h' ! p)" and "freeze (h ! n) \<longrightarrow> freeze (h' ! n)"
    and "E \<subseteq> E'"
  shows "pair_ok E' h' n p"
proof -
  from assms(1) consider (le) "count (h ! n) \<le> count (h ! p)"
    | (ex) "freeze (h ! p)" "freeze (h ! n) \<or> n \<in> E"
    unfolding pair_ok_def by blast
  then show ?thesis
  proof cases
    case le
    then have "count (h' ! n) \<le> count (h' ! p)" using assms(2,3) by linarith
    then show ?thesis by (simp add: pair_ok_def)
  next
    case ex
    then have "freeze (h' ! p)" "freeze (h' ! n) \<or> n \<in> E'" using assms(4,5,6) by blast+
    then show ?thesis by (simp add: pair_ok_def)
  qed
qed

lemma counts_ordered_mono:
  assumes "counts_ordered E h" and "E \<subseteq> E'"
  shows "counts_ordered E' h"
proof (rule counts_orderedI)
  fix n assume n: "n < length h"
  show "0 \<le> count (h ! n)" using counts_ordered_count[OF assms(1) n] .
  { fix p assume p: "parent (h ! n) = Some p"
    from counts_ordered_parent[OF assms(1) n p]
    have pl: "p < length h" and ok: "pair_ok E h n p" by simp_all
    show "p < length h" by (rule pl)
    show "pair_ok E' h n p"
      using ok by (rule pair_ok_transfer) (simp_all add: assms(2)) }
  { fix cs c assume "children_field (h ! n) = Some cs" "c \<in> set cs"
    from counts_ordered_child[OF assms(1) n this]
    show "c < length h \<and> parent (h ! c) = Some n" . }
qed

lemma counts_ordered_drop_frozen:
  assumes "counts_ordered (insert r E) h" and "freeze (h ! r)"
  shows "counts_ordered E h"
proof (rule counts_orderedI)
  fix n assume n: "n < length h"
  show "0 \<le> count (h ! n)" using counts_ordered_count[OF assms(1) n] .
  { fix p assume p: "parent (h ! n) = Some p"
    from counts_ordered_parent[OF assms(1) n p]
    have pl: "p < length h" and ok: "pair_ok (insert r E) h n p" by simp_all
    show "p < length h" by (rule pl)
    show "pair_ok E h n p"
      using ok assms(2) unfolding pair_ok_def by auto }
  { fix cs c assume "children_field (h ! n) = Some cs" "c \<in> set cs"
    from counts_ordered_child[OF assms(1) n this]
    show "c < length h \<and> parent (h ! c) = Some n" . }
qed

lemma same_frame_refl: "same_frame h h"
  by (simp add: same_frame_def)

lemma same_frame_trans: "same_frame a b \<Longrightarrow> same_frame b c \<Longrightarrow> same_frame a c"
  by (simp add: same_frame_def)

lemma same_frame_counts_ordered:
  assumes "same_frame h h'" and "counts_ordered E h"
  shows "counts_ordered E h'"
proof (rule counts_orderedI)
  have len: "length h' = length h"
    using assms(1) by (simp add: same_frame_def)
  have same: "parent (h' ! k) = parent (h ! k) \<and> freeze (h' ! k) = freeze (h ! k)
      \<and> count (h' ! k) = count (h ! k) \<and> children_field (h' ! k) = children_field (h ! k)"
    if "k < length h" for k
    using assms(1) that by (simp add: same_frame_def)
  fix n assume n: "n < length h'"
  then have n': "n < length h" using len by simp
  show "0 \<le> count (h' ! n)"
    using same[OF n'] counts_ordered_count[OF assms(2) n'] by simp
  { fix p assume p: "parent (h' ! n) = Some p"
    then have pp: "parent (h ! n) = Some p" using same[OF n'] by simp
    from counts_ordered_parent[OF assms(2) n' pp]
    have pl: "p < length h" and ok: "pair_ok E h n p" by simp_all
    show "p < length h'" using pl len by simp
    show "pair_ok E h' n p"
      using ok by (rule pair_ok_transfer) (simp_all add: same[OF n'] same[OF pl]) }
  { fix cs c assume cs: "children_field (h' ! n) = Some cs" "c \<in> set cs"
    then have "children_field (h ! n) = Some cs" using same[OF n'] by simp
    from counts_ordered_child[OF assms(2) n' this cs(2)]
    have c: "c < length h" "parent (h ! c) = Some n"
      by simp_all
    show "c < length h' \<and> parent (h' ! c) = Some n"
      using c same[OF c(1)] len by simp }
qed

lemma same_frame_stable: "same_frame h h' \<Longrightarrow> stable h h'"
  by (simp add: same_frame_def stable_def)

lemma stable_refl: "stable h h"
  by (simp add: stable_def)

lemma stable_trans:
  assumes "stable a b" and "stable b c"
  shows "stable a c"
  unfolding stable_def
proof (intro conjI allI impI)
  show "length a \<le> length c" using assms by (simp add: stable_def)
  fix n assume n: "n < length a"
  then have nb: "n < length b" using assms(1) by (simp add: stable_def)
  show "parent (c ! n) = parent (a ! n)" using assms n nb by (simp add: stable_def)
  have "count (a ! n) \<le> count (b ! n)" "count (b ! n) \<le> count (c ! n)"
    using assms n nb by (simp_all add: stable_def)
  then show "count (a ! n) \<le> count (c ! n)" by simp
  assume "freeze (a ! n)"
  then show "freeze (c ! n)" using assms n nb by (simp add: stable_def)
qed

lemma stable_logical_root:
  assumes "counts_ordered E h" and "logical_root h r" and "stable h h'"
  shows "logical_root h' r"
proof -
  have r: "r < length h" using assms(2) by (simp add: logical_root_def)
  then have r': "r < length h'" using assms(3) by (simp add: stable_def)
  have par: "parent (h' ! r) = parent (h ! r)" using assms(3) r by (simp add: stable_def)
  show ?thesis
  proof (cases "parent (h ! r)")
    case None
    then show ?thesis using r' par by (simp add: logical_root_def)
  next
    case (Some p)
    then have "freeze (h ! p)" using assms(2) by (simp add: logical_root_def)
    moreover have "p < length h" using counts_ordered_parent[OF assms(1) r Some] by simp
    ultimately have "freeze (h' ! p)" using assms(3) by (simp add: stable_def)
    then show ?thesis using r' par Some by (simp add: logical_root_def)
  qed
qed

text \<open>\<open>backpropagate\<close> and \<open>set_as_solved\<close> keep the frame.\<close>

lemmas set_as_solved_induct = set_as_solved.raw_induct[rotated 1, consumes 1, case_names step]
lemmas selection_loop_induct = selection_loop.raw_induct[rotated 1, consumes 1, case_names step]
lemmas search_loop_induct = search_loop.raw_induct[rotated 1, consumes 1, case_names step]

lemma same_frame_update:
  assumes "parent x = parent (h ! n)" "freeze x = freeze (h ! n)" "count x = count (h ! n)"
    "children_field x = children_field (h ! n)" "reference_node x = reference_node (h ! n)"
  shows "same_frame h (h[n := x])"
proof -
  have "parent (h[n := x] ! k) = parent (h ! k) \<and> freeze (h[n := x] ! k) = freeze (h ! k)
        \<and> count (h[n := x] ! k) = count (h ! k)
        \<and> children_field (h[n := x] ! k) = children_field (h ! k)
        \<and> reference_node (h[n := x] ! k) = reference_node (h ! k)" if "k < length h" for k
    using that assms by (cases "k = n") simp_all
  then show ?thesis
    unfolding same_frame_def by simp
qed

lemma backpropagate_same_frame:
  "backpropagate h m reward leaf = Some h' \<Longrightarrow> same_frame h h'"
proof (induction rule: backpropagate_induct)
  case (step bp h n new_reward leaf ha)
  show ?case
  proof (cases "freeze (h ! n)")
    case True
    with step(2) show ?thesis by (simp add: same_frame_refl)
  next
    case False
    define h1 where "h1 = h[n := (h ! n)\<lparr> sum_rewards := sum_rewards (h ! n) + new_reward \<rparr>]"
    define h2 where "h2 = h1[n := (h1 ! n)\<lparr> sum_of_square_rewards :=
                                     sum_of_square_rewards (h1 ! n) + new_reward ^ 2 \<rparr>]"
    define h3 where "h3 = (if new_reward > top_reward (h2 ! n)
                  then h2[n := (h2 ! n)\<lparr> top_reward := new_reward, top_leaf_node := Some leaf \<rparr>]
                  else h2)"
    have f1: "same_frame h h1" unfolding h1_def by (rule same_frame_update) simp_all
    have f2: "same_frame h1 h2" unfolding h2_def by (rule same_frame_update) simp_all
    have f3: "same_frame h2 h3" unfolding h3_def
      by (auto intro: same_frame_refl same_frame_update)
    have f: "same_frame h h3"
      using f1 f2 f3 by (blast intro: same_frame_trans)
    have body: "(case parent (h3 ! n) of None \<Rightarrow> Some h3 | Some p \<Rightarrow> bp h3 p new_reward leaf) = Some ha"
      using step(2) False unfolding h3_def h2_def h1_def Let_def by (simp only: if_False)
    show ?thesis
    proof (cases "parent (h3 ! n)")
      case None
      with body f show ?thesis by simp
    next
      case (Some p)
      with body have "bp h3 p new_reward leaf = Some ha" by simp
      from step(1)[OF this] f show ?thesis by (rule same_frame_trans[rotated])
    qed
  qed
qed

lemma backpropagate_all_same_frame:
  "backpropagate_all h rs = Some h' \<Longrightarrow> same_frame h h'"
proof (induction h rs arbitrary: h' rule: backpropagate_all.induct)
  case (1 h)
  then show ?case by (simp add: same_frame_refl)
next
  case (2 h reward leaf frontier_counter_node rest)
  from 2(2) obtain h1 where b: "backpropagate h frontier_counter_node reward leaf = Some h1"
    and r: "backpropagate_all h1 rest = Some h'"
    by (auto split: option.splits)
  from backpropagate_same_frame[OF b] 2(1)[OF b r] show ?case
    by (rule same_frame_trans)
qed

lemma set_as_solved_same_frame_aux:
  "set_as_solved h n = Some r \<Longrightarrow> r = Inr h' \<Longrightarrow> same_frame h h'"
proof (induction arbitrary: h' rule: set_as_solved_induct)
  case (step sas h n r)
  define h1 where "h1 = h[n := (h ! n)\<lparr> solved := True \<rparr>]"
  have f1: "same_frame h h1" unfolding h1_def by (rule same_frame_update) simp_all
  from step(2) have body: "(case parent (h1 ! n) of
           None \<Rightarrow> Some (Inr h1)
         | Some p \<Rightarrow>
             if freeze (h1 ! p) then Some (Inr h1)
             else (case children h1 p of
                     Inl e \<Rightarrow> Some (Inl e)
                   | Inr brothers \<Rightarrow>
                       if \<exists>brother \<in> set brothers. \<not> solved (h1 ! brother)
                       then Some (Inr h1)
                       else sas h1 p)) = Some r"
    unfolding h1_def Let_def .
  then have "(\<exists>e. r = Inl e) \<or> r = Inr h1 \<or> (\<exists>p. sas h1 p = Some r)"
    by (auto split: option.splits if_splits sum.splits)
  then show ?case
  proof (elim disjE)
    assume "\<exists>e. r = Inl e"
    with step(3) show ?thesis by auto
  next
    assume "r = Inr h1"
    with f1 step(3) show ?thesis by simp
  next
    assume "\<exists>p. sas h1 p = Some r"
    then obtain p where "sas h1 p = Some r" by blast
    from step(1)[OF this step(3)] f1 show ?thesis by (rule same_frame_trans[rotated])
  qed
qed

lemma set_as_solved_same_frame:
  "set_as_solved h n = Some (Inr h') \<Longrightarrow> same_frame h h'"
  by (rule set_as_solved_same_frame_aux[OF _ refl])

text \<open>The selection phase.\<close>

lemma max_loop_member: "max_loop key best k xs = Inr x \<Longrightarrow> x = best \<or> x \<in> set xs"
  by (induction xs arbitrary: best k) (auto split: sum.splits if_splits)

lemma py_max_member: "py_max key xs = Inr x \<Longrightarrow> x \<in> set xs"
  by (cases xs) (auto simp: py_max_def dest: max_loop_member split: sum.splits)

lemma children_Inr: "children h n = Inr cs \<Longrightarrow> children_field (h ! n) = Some cs"
  by (auto simp: children_def split: option.splits list.splits)

lemma first_unvisited_member: "first_unvisited h cs = Some c \<Longrightarrow> c \<in> set cs"
  by (auto simp: first_unvisited_def find_Some_iff)

lemma ucb_candidates_subset: "c \<in> set (ucb_candidates h cs) \<Longrightarrow> c \<in> set cs"
  by (auto simp: ucb_candidates_def split: option.splits)

lemma selection_policy_member:
  assumes "selection_policy h n = Inr nxt"
  shows "\<exists>cs. children_field (h ! n) = Some cs \<and> nxt \<in> set cs"
proof -
  from assms obtain cs where cs: "children h n = Inr cs"
    by (auto simp: selection_policy_def split: sum.splits)
  have "nxt \<in> set cs"
  proof (cases "first_unvisited h cs")
    case None
    with assms cs have "py_max (\<lambda>node. single_player_ucb (h ! node) (h ! n) 1 100)
        (ucb_candidates h cs) = Inr nxt"
      by (simp add: selection_policy_def)
    then have "nxt \<in> set (ucb_candidates h cs)"
      by (rule py_max_member)
    then show ?thesis
      by (rule ucb_candidates_subset)
  next
    case (Some c)
    with assms cs have "c = nxt" by (simp add: selection_policy_def)
    with Some show ?thesis by (simp add: first_unvisited_member)
  qed
  with children_Inr[OF cs] show ?thesis by blast
qed

lemma visit_length [simp]: "length (visit h n) = length h"
  by (simp add: visit_def)

lemma visit_other: "k \<noteq> n \<Longrightarrow> visit h n ! k = h ! k"
  by (simp add: visit_def)

lemma visit_self: "n < length h \<Longrightarrow> visit h n ! n = (h ! n)\<lparr> count := count (h ! n) + 1 \<rparr>"
  by (simp add: visit_def)

lemma visit_beyond: "\<not> n < length h \<Longrightarrow> visit h n = h"
  by (simp add: visit_def list_update_beyond)

lemma visit_fields:
  "parent (visit h n ! k) = parent (h ! k)"
  "freeze (visit h n ! k) = freeze (h ! k)"
  "children_field (visit h n ! k) = children_field (h ! k)"
proof -
  consider "k \<noteq> n" | "k = n" "n < length h" | "\<not> n < length h" by blast
  then have "parent (visit h n ! k) = parent (h ! k) \<and> freeze (visit h n ! k) = freeze (h ! k)
      \<and> children_field (visit h n ! k) = children_field (h ! k)"
    by cases (simp_all add: visit_other visit_self visit_beyond)
  then show "parent (visit h n ! k) = parent (h ! k)"
    "freeze (visit h n ! k) = freeze (h ! k)"
    "children_field (visit h n ! k) = children_field (h ! k)"
    by simp_all
qed

lemma visit_count_other: "k \<noteq> n \<Longrightarrow> count (visit h n ! k) = count (h ! k)"
  by (simp add: visit_other)

lemma visit_count_self: "n < length h \<Longrightarrow> count (visit h n ! n) = count (h ! n) + 1"
  by (simp add: visit_self)

lemma visit_count_le: "count (h ! k) \<le> count (visit h n ! k)"
proof -
  consider "k \<noteq> n" | "k = n" "n < length h" | "\<not> n < length h" by blast
  then show ?thesis
    by cases (simp_all add: visit_other visit_self visit_beyond)
qed

lemma visit_stable: "stable h (visit h n)"
  by (simp add: stable_def visit_fields visit_count_le)

lemma visit_keeps_pair:
  assumes "pair_ok E h k p" and "k \<noteq> n"
  shows "pair_ok E (visit h n) k p"
  using assms(1)
proof (rule pair_ok_transfer)
  show "count (visit h n ! k) \<le> count (h ! k)"
    using assms(2) by (simp add: visit_count_other)
  show "count (h ! p) \<le> count (visit h n ! p)" by (rule visit_count_le)
qed (simp_all add: visit_fields)

lemma visit_step:
  assumes co: "counts_ordered E h" and bs: "below_strict E h node"
    and cs: "children_field (h ! node) = Some cs" and nxt: "nxt \<in> set cs"
  shows "counts_ordered E (visit h nxt) \<and> below_strict E (visit h nxt) nxt"
proof -
  have node: "node < length h" using bs by (simp add: below_strict_def)
  from counts_ordered_child[OF co node cs nxt]
  have nl: "nxt < length h" and np: "parent (h ! nxt) = Some node" by simp_all
  have strict: "count (h ! nxt) < count (h ! node)
                \<or> (freeze (h ! node) \<and> (freeze (h ! nxt) \<or> nxt \<in> E))" if "nxt \<noteq> node"
    using bs that nl np unfolding below_strict_def by blast
  have self: "count (visit h nxt ! nxt) = count (h ! nxt) + 1"
    using nl by (rule visit_count_self)
  have co': "counts_ordered E (visit h nxt)"
  proof (rule counts_orderedI)
    fix k assume k: "k < length (visit h nxt)"
    then have kl: "k < length h" by simp
    have "0 \<le> count (h ! k)" using counts_ordered_count[OF co kl] .
    then show "0 \<le> count (visit h nxt ! k)"
      using visit_count_le[of h k nxt] by simp
    { fix p assume "parent (visit h nxt ! k) = Some p"
      then have pk: "parent (h ! k) = Some p" by (simp add: visit_fields)
      from counts_ordered_parent[OF co kl pk]
      have pl: "p < length h" and ok: "pair_ok E h k p" by simp_all
      show "p < length (visit h nxt)" using pl by simp
      show "pair_ok E (visit h nxt) k p"
      proof (cases "k = nxt")
        case False
        with ok show ?thesis by (rule visit_keeps_pair)
      next
        case True
        then have pn: "p = node" using pk np by simp
        show ?thesis
        proof (cases "nxt = node")
          case True
          then show ?thesis using \<open>k = nxt\<close> pn by (simp add: pair_ok_def)
        next
          case False
          then have other: "count (visit h nxt ! node) = count (h ! node)"
            by (simp add: visit_count_other)
          from strict[OF False] show ?thesis
          proof
            assume "count (h ! nxt) < count (h ! node)"
            then show ?thesis
              using self other \<open>k = nxt\<close> pn by (simp add: pair_ok_def)
          next
            assume "freeze (h ! node) \<and> (freeze (h ! nxt) \<or> nxt \<in> E)"
            then show ?thesis
              using \<open>k = nxt\<close> pn by (simp add: pair_ok_def visit_fields)
          qed
        qed
      qed }
    { fix ds c assume "children_field (visit h nxt ! k) = Some ds" "c \<in> set ds"
      then have "children_field (h ! k) = Some ds" "c \<in> set ds" by (simp_all add: visit_fields)
      from counts_ordered_child[OF co kl this]
      show "c < length (visit h nxt) \<and> parent (visit h nxt ! c) = Some k"
        by (simp add: visit_fields) }
  qed
  have "below_strict E (visit h nxt) nxt"
    unfolding below_strict_def
  proof (intro conjI impI allI)
    show "nxt < length (visit h nxt)" using nl by simp
    fix k
    assume k: "k < length (visit h nxt)"
      and pk': "parent (visit h nxt ! k) = Some nxt \<and> k \<noteq> nxt"
    have kl: "k < length h" using k by simp
    have pk: "parent (h ! k) = Some nxt" and kn: "k \<noteq> nxt"
      using pk' by (simp_all add: visit_fields)
    have other: "count (visit h nxt ! k) = count (h ! k)"
      using kn by (rule visit_count_other)
    from counts_ordered_parent[OF co kl pk] have "pair_ok E h k nxt" by simp
    then show "count (visit h nxt ! k) < count (visit h nxt ! nxt)
               \<or> (freeze (visit h nxt ! nxt) \<and> (freeze (visit h nxt ! k) \<or> k \<in> E))"
      using self other unfolding pair_ok_def by (auto simp: visit_fields)
  qed
  with co' show ?thesis by simp
qed

lemma visit_root:
  assumes co: "counts_ordered E h" and lr: "logical_root h r" and rE: "r \<in> E"
  shows "counts_ordered E (visit h r) \<and> below_strict E (visit h r) r"
proof -
  have rl: "r < length h" using lr by (simp add: logical_root_def)
  have rp: "freeze (h ! p)" if "parent (h ! r) = Some p" for p
    using lr that by (simp add: logical_root_def)
  have self: "count (visit h r ! r) = count (h ! r) + 1"
    using rl by (rule visit_count_self)
  have co': "counts_ordered E (visit h r)"
  proof (rule counts_orderedI)
    fix k assume k: "k < length (visit h r)"
    then have kl: "k < length h" by simp
    have "0 \<le> count (h ! k)" using counts_ordered_count[OF co kl] .
    then show "0 \<le> count (visit h r ! k)"
      using visit_count_le[of h k r] by simp
    { fix p assume "parent (visit h r ! k) = Some p"
      then have pk: "parent (h ! k) = Some p" by (simp add: visit_fields)
      from counts_ordered_parent[OF co kl pk]
      have pl: "p < length h" and ok: "pair_ok E h k p" by simp_all
      show "p < length (visit h r)" using pl by simp
      show "pair_ok E (visit h r) k p"
      proof (cases "k = r")
        case False
        with ok show ?thesis by (rule visit_keeps_pair)
      next
        case True
        then have "freeze (h ! p)" using rp pk by simp
        then show ?thesis using True rE by (simp add: pair_ok_def visit_fields)
      qed }
    { fix ds c assume "children_field (visit h r ! k) = Some ds" "c \<in> set ds"
      then have "children_field (h ! k) = Some ds" "c \<in> set ds" by (simp_all add: visit_fields)
      from counts_ordered_child[OF co kl this]
      show "c < length (visit h r) \<and> parent (visit h r ! c) = Some k"
        by (simp add: visit_fields) }
  qed
  have "below_strict E (visit h r) r"
    unfolding below_strict_def
  proof (intro conjI impI allI)
    show "r < length (visit h r)" using rl by simp
    fix k
    assume k: "k < length (visit h r)"
      and pk': "parent (visit h r ! k) = Some r \<and> k \<noteq> r"
    have kl: "k < length h" using k by simp
    have pk: "parent (h ! k) = Some r" and kn: "k \<noteq> r"
      using pk' by (simp_all add: visit_fields)
    have other: "count (visit h r ! k) = count (h ! k)"
      using kn by (rule visit_count_other)
    from counts_ordered_parent[OF co kl pk] have "pair_ok E h k r" by simp
    then show "count (visit h r ! k) < count (visit h r ! r)
               \<or> (freeze (visit h r ! r) \<and> (freeze (visit h r ! k) \<or> k \<in> E))"
      using self other unfolding pair_ok_def by (auto simp: visit_fields)
  qed
  with co' show ?thesis by simp
qed

lemma selection_loop_inv:
  "selection_loop h node = Some r \<Longrightarrow> r = Inr (h', f) \<Longrightarrow> counts_ordered E h
     \<Longrightarrow> below_strict E h node
     \<Longrightarrow> counts_ordered E h' \<and> stable h h' \<and> f < length h' \<and> length h' = length h"
proof (induction arbitrary: h' f rule: selection_loop_induct)
  case (step sl h node r)
  show ?case
  proof (cases "is_terminal h node")
    case True
    with step(2,3) have "h' = h" "f = node" by simp_all
    with step(4,5) show ?thesis by (simp add: stable_refl below_strict_def)
  next
    case False
    with step(2) have body: "(case selection_policy h node of
              Inl e \<Rightarrow> Some (Inl e)
            | Inr nxt \<Rightarrow> sl (visit h nxt) nxt) = Some r"
      by simp
    with step(3) obtain nxt where pol: "selection_policy h node = Inr nxt"
      and rec: "sl (visit h nxt) nxt = Some r"
      by (auto split: sum.splits)
    from selection_policy_member[OF pol] obtain cs where
      cs: "children_field (h ! node) = Some cs" "nxt \<in> set cs" by blast
    from visit_step[OF step(4,5) cs]
    have v: "counts_ordered E (visit h nxt)" "below_strict E (visit h nxt) nxt" by simp_all
    from step(1)[OF rec step(3) v]
    have "counts_ordered E h'" "stable (visit h nxt) h'" "f < length h'"
      "length h' = length (visit h nxt)" by simp_all
    moreover have "stable h h'"
      using visit_stable \<open>stable (visit h nxt) h'\<close> by (rule stable_trans)
    ultimately show ?thesis by simp
  qed
qed

lemma selection_phase_inv:
  assumes "selection_phase h r = Some (Inr (h', f))" and "counts_ordered E h"
    and "logical_root h r" and "r \<in> E"
  shows "counts_ordered E h' \<and> stable h h' \<and> f < length h'"
proof -
  from visit_root[OF assms(2,3,4)]
  have v: "counts_ordered E (visit h r)" "below_strict E (visit h r) r" by simp_all
  from assms(1) have "selection_loop (visit h r) r = Some (Inr (h', f))"
    by (simp add: selection_phase_def)
  from selection_loop_inv[OF this refl v]
  have "counts_ordered E h'" "stable (visit h r) h'" "f < length h'" by simp_all
  moreover have "stable h h'"
    using visit_stable \<open>stable (visit h r) h'\<close> by (rule stable_trans)
  ultimately show ?thesis by simp
qed

text \<open>Expansion, evaluation and root advancement.\<close>

lemma and_then_Inr:
  "and_then m f = Some (Inr y) \<Longrightarrow> \<exists>x. m = Some (Inr x) \<and> f x = Some (Inr y)"
  by (auto simp: and_then_def split: option.splits sum.splits)

lemma returns_Inr: "returns m = Some (Inr x) \<Longrightarrow> m = Some x"
  by (cases m) (simp_all add: returns_def)

lemma expand_old:
  assumes "expand h n = Inr h'" and "k < length h"
  shows "parent (h' ! k) = parent (h ! k) \<and> freeze (h' ! k) = freeze (h ! k)
         \<and> count (h' ! k) = count (h ! k)
         \<and> (k \<noteq> n \<longrightarrow> children_field (h' ! k) = children_field (h ! k))"
proof -
  define kids where "kids = g_children (reference_node (h ! n))"
  define h1 where "h1 = h @ map (\<lambda>child_node. new_cnode child_node (Some n)) kids"
  have h': "h' = h1[n := (h1 ! n)\<lparr> children_field := Some [length h ..< length h + length kids],
                                   is_terminal_field := False \<rparr>]"
    using assms(1) by (simp add: expand_def Let_def kids_def h1_def split: if_splits)
  have k1: "h1 ! k = h ! k" using assms(2) by (simp add: h1_def nth_append)
  have kl: "k < length h1" using assms(2) by (simp add: h1_def)
  show ?thesis
  proof (cases "k = n")
    case True
    then show ?thesis using kl k1 by (simp add: h')
  next
    case False
    then show ?thesis using k1 by (simp add: h')
  qed
qed

lemma expand_new:
  assumes "expand h n = Inr h'" and "n < length h" and "length h \<le> k" and "k < length h'"
  shows "parent (h' ! k) = Some n \<and> count (h' ! k) = 0 \<and> \<not> freeze (h' ! k)
         \<and> children_field (h' ! k) = None"
proof -
  define kids where "kids = g_children (reference_node (h ! n))"
  define h1 where "h1 = h @ map (\<lambda>child_node. new_cnode child_node (Some n)) kids"
  have h': "h' = h1[n := (h1 ! n)\<lparr> children_field := Some [length h ..< length h + length kids],
                                   is_terminal_field := False \<rparr>]"
    using assms(1) by (simp add: expand_def Let_def kids_def h1_def split: if_splits)
  have kn: "k \<noteq> n" using assms(2,3) by simp
  have kk: "k - length h < length kids" using assms(3,4) by (simp add: h' h1_def)
  have "h' ! k = h1 ! k" using kn by (simp add: h')
  also have "\<dots> = new_cnode (kids ! (k - length h)) (Some n)"
    using assms(3) kk by (simp add: h1_def nth_append)
  finally show ?thesis by (simp add: new_cnode_def)
qed

lemma expand_self:
  assumes "expand h n = Inr h'" and "n < length h"
  shows "children_field (h' ! n) = Some [length h ..< length h']" and "length h \<le> length h'"
proof -
  define kids where "kids = g_children (reference_node (h ! n))"
  define h1 where "h1 = h @ map (\<lambda>child_node. new_cnode child_node (Some n)) kids"
  have h': "h' = h1[n := (h1 ! n)\<lparr> children_field := Some [length h ..< length h + length kids],
                                   is_terminal_field := False \<rparr>]"
    using assms(1) by (simp add: expand_def Let_def kids_def h1_def split: if_splits)
  have nl: "n < length h1" using assms(2) by (simp add: h1_def)
  have len: "length h' = length h + length kids" by (simp add: h' h1_def)
  have "children_field (h' ! n) = Some [length h ..< length h + length kids]"
    using nl by (simp add: h')
  then show "children_field (h' ! n) = Some [length h ..< length h']"
    by (simp only: len)
  show "length h \<le> length h'" using len by simp
qed

lemma expand_inv:
  assumes e: "expand h n = Inr h'" and n: "n < length h" and co: "counts_ordered E h"
  shows "counts_ordered E h' \<and> stable h h'"
proof -
  note old = expand_old[OF e]
  note new = expand_new[OF e n]
  note self = expand_self[OF e n]
  have co': "counts_ordered E h'"
  proof (rule counts_orderedI)
    fix k assume k: "k < length h'"
    show "0 \<le> count (h' ! k)"
    proof (cases "k < length h")
      case True
      then show ?thesis using old[OF True] counts_ordered_count[OF co True] by simp
    next
      case False
      then show ?thesis using new[of k] k by simp
    qed
    { fix p assume pk: "parent (h' ! k) = Some p"
      have pl: "p < length h"
      proof (cases "k < length h")
        case True
        then have "parent (h ! k) = Some p" using old[OF True] pk by simp
        from counts_ordered_parent[OF co True this] show ?thesis by simp
      next
        case False
        then have "parent (h' ! k) = Some n" using new[of k] k by simp
        with pk n show ?thesis by simp
      qed
      then show "p < length h'" using self(2) by simp
      show "pair_ok E h' k p"
      proof (cases "k < length h")
        case True
        then have "parent (h ! k) = Some p" using old[OF True] pk by simp
        from counts_ordered_parent[OF co True this] have "pair_ok E h k p" by simp
        then show ?thesis
          by (rule pair_ok_transfer) (simp_all add: old[OF True] old[OF pl])
      next
        case False
        then have "count (h' ! k) = 0" using new[of k] k by simp
        moreover have "0 \<le> count (h ! p)" using counts_ordered_count[OF co pl] .
        ultimately show ?thesis using old[OF pl] by (simp add: pair_ok_def)
      qed }
    { fix cs c assume cs: "children_field (h' ! k) = Some cs" and c: "c \<in> set cs"
      show "c < length h' \<and> parent (h' ! c) = Some k"
      proof (cases "k = n")
        case True
        then have "cs = [length h ..< length h']" using self(1) cs by simp
        then have "length h \<le> c" "c < length h'" using c by simp_all
        then show ?thesis using new[of c] True by simp
      next
        case False
        have kl: "k < length h"
        proof (rule ccontr)
          assume "\<not> k < length h"
          then have "children_field (h' ! k) = None" using new[of k] k by simp
          with cs show False by simp
        qed
        then have "children_field (h ! k) = Some cs" using old[OF kl] False cs by simp
        from counts_ordered_child[OF co kl this c]
        have cl: "c < length h" and pc: "parent (h ! c) = Some k" by simp_all
        then show ?thesis using old[OF cl] self(2) by simp
      qed }
  qed
  have "stable h h'"
    unfolding stable_def using old self(2) by simp
  with co' show ?thesis by simp
qed

lemma expansion_inv:
  assumes "expansion h f = Some (Inr h')" and "f < length h" and "counts_ordered E h"
  shows "counts_ordered E h' \<and> stable h h' \<and> length h \<le> length h'"
proof (cases "g_terminal (reference_node (h ! f))")
  case True
  with assms(1) have "set_as_solved h f = Some (Inr h')" by (simp add: expansion_def)
  then have sf: "same_frame h h'" by (rule set_as_solved_same_frame)
  then show ?thesis
    using same_frame_counts_ordered[OF sf assms(3)] same_frame_stable[OF sf]
    by (simp add: same_frame_def)
next
  case False
  with assms(1) have e: "expand h f = Inr h'" by (simp add: expansion_def)
  from expand_inv[OF e assms(2,3)] expand_self(2)[OF e assms(2)] show ?thesis by simp
qed

lemma pop_and_backpropagate_frame:
  assumes "pop_and_backpropagate s = Some (Inr s')"
  shows "same_frame (nodes s) (nodes s')"
proof -
  from assms obtain h where b: "backpropagate_all (nodes s) (results (eval_buffer s)) = Some h"
    and s': "s' = s\<lparr> eval_buffer := (eval_buffer s)\<lparr> results := [] \<rparr>, nodes := h \<rparr>"
    by (auto simp: pop_and_backpropagate_def pop_results_def dest!: and_then_Inr returns_Inr)
  from backpropagate_all_same_frame[OF b] s' show ?thesis by simp
qed

lemma freeze_inv:
  assumes co: "counts_ordered E h" and r: "r < length h"
  shows "counts_ordered E (h[r := (h ! r)\<lparr> freeze := True \<rparr>])
         \<and> stable h (h[r := (h ! r)\<lparr> freeze := True \<rparr>])
         \<and> freeze (h[r := (h ! r)\<lparr> freeze := True \<rparr>] ! r)"
proof -
  define h' where "h' = h[r := (h ! r)\<lparr> freeze := True \<rparr>]"
  have f: "parent (h' ! k) = parent (h ! k) \<and> count (h' ! k) = count (h ! k)
           \<and> children_field (h' ! k) = children_field (h ! k)
           \<and> (freeze (h ! k) \<longrightarrow> freeze (h' ! k))" if "k < length h" for k
    using that by (cases "k = r") (simp_all add: h'_def)
  have len: "length h' = length h" by (simp add: h'_def)
  have co': "counts_ordered E h'"
  proof (rule counts_orderedI)
    fix k assume "k < length h'"
    then have kl: "k < length h" using len by simp
    show "0 \<le> count (h' ! k)" using f[OF kl] counts_ordered_count[OF co kl] by simp
    { fix p assume "parent (h' ! k) = Some p"
      then have pk: "parent (h ! k) = Some p" using f[OF kl] by simp
      from counts_ordered_parent[OF co kl pk]
      have pl: "p < length h" and ok: "pair_ok E h k p" by simp_all
      show "p < length h'" using pl len by simp
      show "pair_ok E h' k p"
        using ok by (rule pair_ok_transfer) (simp_all add: f[OF kl] f[OF pl]) }
    { fix cs c assume "children_field (h' ! k) = Some cs" "c \<in> set cs"
      then have "children_field (h ! k) = Some cs" "c \<in> set cs" using f[OF kl] by simp_all
      from counts_ordered_child[OF co kl this]
      have cl: "c < length h" and "parent (h ! c) = Some k" by simp_all
      then show "c < length h' \<and> parent (h' ! c) = Some k" using f[OF cl] len by simp }
  qed
  have "stable h h'" unfolding stable_def using f len by simp
  moreover have "freeze (h' ! r)" using r by (simp add: h'_def)
  ultimately show ?thesis using co' unfolding h'_def by simp
qed

lemma go_down_inv:
  assumes g: "go_down s r depth = Some (Inr (s', r', depth'))"
    and co: "counts_ordered (insert r E) (nodes s)" and r: "r < length (nodes s)"
  shows "counts_ordered (insert r' E) (nodes s') \<and> stable (nodes s) (nodes s')
         \<and> logical_root (nodes s') r'"
proof -
  from g obtain s1 where p: "pop_and_backpropagate (s\<lparr> eval_buffer := force_eval (eval_buffer s) \<rparr>)
        = Some (Inr s1)"
    and rest: "(let h = (nodes s1)[r := (nodes s1 ! r)\<lparr> freeze := True \<rparr>]
          in and_then (Some (children h r))
               (\<lambda>cs. and_then (Some (py_max (\<lambda>child. Inr (top_reward (h ! child))) cs))
                  (\<lambda>best. Some (Inr (s1\<lparr> nodes := h,
                                         ressource_distributor :=
                                           set_new_position (ressource_distributor s1) (depth + 1) \<rparr>,
                                      best, depth + 1))))) = Some (Inr (s', r', depth'))"
    unfolding go_down_def by (blast dest: and_then_Inr)
  define h where "h = (nodes s1)[r := (nodes s1 ! r)\<lparr> freeze := True \<rparr>]"
  from pop_and_backpropagate_frame[OF p] have sf: "same_frame (nodes s) (nodes s1)" by simp
  have co1: "counts_ordered (insert r E) (nodes s1)"
    using same_frame_counts_ordered[OF sf co] .
  have r1: "r < length (nodes s1)" using sf r by (simp add: same_frame_def)
  from freeze_inv[OF co1 r1]
  have coh: "counts_ordered (insert r E) h" and sth: "stable (nodes s1) h" and fr: "freeze (h ! r)"
    by (simp_all add: h_def)
  have "counts_ordered E h" using coh fr by (rule counts_ordered_drop_frozen)
  then have coh': "counts_ordered (insert r' E) h"
    by (rule counts_ordered_mono) blast
  have rh: "r < length h" using r1 by (simp add: h_def)
  from rest obtain cs where cs: "children h r = Inr cs"
    and best: "py_max (\<lambda>child. Inr (top_reward (h ! child))) cs = Inr r'"
    and s': "nodes s' = h"
    unfolding Let_def h_def[symmetric]
    by (auto dest!: and_then_Inr)
  from py_max_member[OF best] have "r' \<in> set cs" .
  from counts_ordered_child[OF coh rh children_Inr[OF cs] this]
  have "r' < length h" "parent (h ! r') = Some r" by simp_all
  then have "logical_root h r'" using fr by (simp add: logical_root_def)
  moreover have "stable (nodes s) h"
    using same_frame_stable[OF sf] sth by (rule stable_trans)
  ultimately show ?thesis using coh' s' by simp
qed

text \<open>The chains of advanced roots.\<close>

lemma chain_ok_iff:
  "chain_ok E h \<longleftrightarrow>
     (\<forall>e \<in> E. logical_root h e)
     \<and> (\<forall>n p. n < length h \<longrightarrow> parent (h ! n) = Some p \<longrightarrow>
            p < length h \<and> (freeze (h ! n) \<longrightarrow> freeze (h ! p)))
     \<and> (\<forall>n m p. n < length h \<longrightarrow> m < length h \<longrightarrow> parent (h ! n) = Some p
            \<longrightarrow> parent (h ! m) = Some p \<longrightarrow> freeze (h ! n) \<or> n \<in> E
            \<longrightarrow> freeze (h ! m) \<or> m \<in> E \<longrightarrow> n = m)"
proof -
  have a: "(\<forall>n < length h. case parent (h ! n) of
                           None \<Rightarrow> True
                         | Some p \<Rightarrow> p < length h \<and> (freeze (h ! n) \<longrightarrow> freeze (h ! p)))
        \<longleftrightarrow> (\<forall>n p. n < length h \<longrightarrow> parent (h ! n) = Some p \<longrightarrow>
            p < length h \<and> (freeze (h ! n) \<longrightarrow> freeze (h ! p)))"
    by (auto split: option.splits)
  have b: "(\<forall>n < length h. \<forall>m < length h.
           parent (h ! n) \<noteq> None \<and> parent (h ! m) = parent (h ! n)
           \<and> (freeze (h ! n) \<or> n \<in> E) \<and> (freeze (h ! m) \<or> m \<in> E) \<longrightarrow> n = m)
        \<longleftrightarrow> (\<forall>n m p. n < length h \<longrightarrow> m < length h \<longrightarrow> parent (h ! n) = Some p
            \<longrightarrow> parent (h ! m) = Some p \<longrightarrow> freeze (h ! n) \<or> n \<in> E
            \<longrightarrow> freeze (h ! m) \<or> m \<in> E \<longrightarrow> n = m)"
    by (rule iffI; clarsimp; blast)
  show ?thesis unfolding chain_ok_def a b ..
qed

lemma chain_ok_root: "chain_ok E h \<Longrightarrow> e \<in> E \<Longrightarrow> logical_root h e"
  unfolding chain_ok_iff by blast

lemma chain_ok_parent:
  "chain_ok E h \<Longrightarrow> n < length h \<Longrightarrow> parent (h ! n) = Some p \<Longrightarrow>
     p < length h \<and> (freeze (h ! n) \<longrightarrow> freeze (h ! p))"
  unfolding chain_ok_iff by blast

lemma chain_ok_unique:
  "chain_ok E h \<Longrightarrow> n < length h \<Longrightarrow> m < length h \<Longrightarrow> parent (h ! n) = Some p
     \<Longrightarrow> parent (h ! m) = Some p \<Longrightarrow> freeze (h ! n) \<or> n \<in> E \<Longrightarrow> freeze (h ! m) \<or> m \<in> E
     \<Longrightarrow> n = m"
  unfolding chain_ok_iff by blast

lemma chain_okI:
  assumes "\<And>e. e \<in> E \<Longrightarrow> logical_root h e"
    and "\<And>n p. n < length h \<Longrightarrow> parent (h ! n) = Some p \<Longrightarrow> p < length h"
    and "\<And>n p. n < length h \<Longrightarrow> parent (h ! n) = Some p \<Longrightarrow> freeze (h ! n) \<Longrightarrow> freeze (h ! p)"
    and "\<And>n m p. n < length h \<Longrightarrow> m < length h \<Longrightarrow> parent (h ! n) = Some p
            \<Longrightarrow> parent (h ! m) = Some p \<Longrightarrow> freeze (h ! n) \<or> n \<in> E
            \<Longrightarrow> freeze (h ! m) \<or> m \<in> E \<Longrightarrow> n = m"
  shows "chain_ok E h"
  unfolding chain_ok_iff using assms by blast

lemma grows_refl: "grows h h"
  by (simp add: grows_def)

lemma grows_old:
  "grows h h' \<Longrightarrow> n < length h \<Longrightarrow>
     n < length h' \<and> parent (h' ! n) = parent (h ! n) \<and> freeze (h' ! n) = freeze (h ! n)"
  by (simp add: grows_def)

lemma grows_new:
  "grows h h' \<Longrightarrow> n < length h' \<Longrightarrow> length h \<le> n \<Longrightarrow>
     \<not> freeze (h' ! n) \<and> (\<forall>p. parent (h' ! n) = Some p \<longrightarrow> p < length h')"
  unfolding grows_def by (cases "parent (h' ! n)") auto

lemma growsI:
  assumes "length h \<le> length h'"
    and "\<And>n. n < length h \<Longrightarrow> parent (h' ! n) = parent (h ! n) \<and> freeze (h' ! n) = freeze (h ! n)"
    and "\<And>n. n < length h' \<Longrightarrow> length h \<le> n \<Longrightarrow> \<not> freeze (h' ! n)"
    and "\<And>n p. n < length h' \<Longrightarrow> length h \<le> n \<Longrightarrow> parent (h' ! n) = Some p \<Longrightarrow> p < length h'"
  shows "grows h h'"
proof -
  have "case parent (h' ! n) of None \<Rightarrow> True | Some p \<Rightarrow> p < length h'"
    if "n < length h'" "length h \<le> n" for n
    using assms(4)[OF that] by (cases "parent (h' ! n)") simp_all
  then show ?thesis
    unfolding grows_def using assms(1,2,3) by blast
qed

lemma grows_trans:
  assumes "grows a b" and "grows b c"
  shows "grows a c"
proof (rule growsI)
  have ab: "length a \<le> length b" and bc: "length b \<le> length c"
    using assms by (simp_all add: grows_def)
  show "length a \<le> length c" using ab bc by simp
  { fix n assume n: "n < length a"
    then have nb: "n < length b" using ab by simp
    show "parent (c ! n) = parent (a ! n) \<and> freeze (c ! n) = freeze (a ! n)"
      using grows_old[OF assms(1) n] grows_old[OF assms(2) nb] by simp }
  { fix n assume n: "n < length c" "length a \<le> n"
    show "\<not> freeze (c ! n)"
    proof (cases "n < length b")
      case True
      then show ?thesis
        using grows_new[OF assms(1) True n(2)] grows_old[OF assms(2) True] by simp
    next
      case False
      then show ?thesis using grows_new[OF assms(2) n(1)] by simp
    qed
    fix p assume p: "parent (c ! n) = Some p"
    show "p < length c"
    proof (cases "n < length b")
      case True
      then have "parent (b ! n) = Some p" using grows_old[OF assms(2) True] p by simp
      then have "p < length b" using grows_new[OF assms(1) True n(2)] by simp
      then show ?thesis using bc by simp
    next
      case False
      then show ?thesis using grows_new[OF assms(2) n(1)] p by simp
    qed }
qed

lemma chain_ok_grows:
  assumes ch: "chain_ok E h" and g: "grows h h'"
  shows "chain_ok E h'"
proof (rule chain_okI)
  have len: "length h \<le> length h'" using g by (simp add: grows_def)
  have old: "n < length h' \<and> parent (h' ! n) = parent (h ! n) \<and> freeze (h' ! n) = freeze (h ! n)"
    if "n < length h" for n
    using grows_old[OF g that] .
  have cand: "n < length h" if "n < length h'" "freeze (h' ! n) \<or> n \<in> E" for n
  proof (rule ccontr)
    assume "\<not> n < length h"
    then have "length h \<le> n" by simp
    from grows_new[OF g that(1) this] have "\<not> freeze (h' ! n)" by simp
    with that(2) have "n \<in> E" by simp
    from chain_ok_root[OF ch this] have "n < length h" by (simp add: logical_root_def)
    with \<open>\<not> n < length h\<close> show False by simp
  qed
  { fix e assume "e \<in> E"
    from chain_ok_root[OF ch this]
    have el: "e < length h"
      and ep: "case parent (h ! e) of None \<Rightarrow> True | Some p \<Rightarrow> freeze (h ! p)"
      by (simp_all add: logical_root_def)
    show "logical_root h' e"
    proof (cases "parent (h ! e)")
      case None
      then show ?thesis using old[OF el] by (simp add: logical_root_def)
    next
      case (Some p)
      then have "freeze (h ! p)" using ep by simp
      moreover have "p < length h" using chain_ok_parent[OF ch el Some] by simp
      ultimately have "freeze (h' ! p)" using old by simp
      then show ?thesis using old[OF el] Some by (simp add: logical_root_def)
    qed }
  { fix n p assume n: "n < length h'" and p: "parent (h' ! n) = Some p"
    show "p < length h'"
    proof (cases "n < length h")
      case True
      then have "parent (h ! n) = Some p" using old[OF True] p by simp
      from chain_ok_parent[OF ch True this] show ?thesis using len by simp
    next
      case False
      then have "length h \<le> n" by simp
      from grows_new[OF g n this] p show ?thesis by simp
    qed
    assume f: "freeze (h' ! n)"
    have nl: "n < length h" using cand[OF n] f by simp
    then have pn: "parent (h ! n) = Some p" and fn: "freeze (h ! n)"
      using old[OF nl] p f by simp_all
    from chain_ok_parent[OF ch nl pn] fn have "p < length h" "freeze (h ! p)" by simp_all
    then show "freeze (h' ! p)" using old by simp }
  { fix n m p
    assume n: "n < length h'" and m: "m < length h'"
      and pn: "parent (h' ! n) = Some p" and pm: "parent (h' ! m) = Some p"
      and cn: "freeze (h' ! n) \<or> n \<in> E" and cm: "freeze (h' ! m) \<or> m \<in> E"
    have nl: "n < length h" using cand[OF n cn] .
    have ml: "m < length h" using cand[OF m cm] .
    show "n = m"
    proof (rule chain_ok_unique[OF ch nl ml])
      show "parent (h ! n) = Some p" using old[OF nl] pn by simp
      show "parent (h ! m) = Some p" using old[OF ml] pm by simp
      show "freeze (h ! n) \<or> n \<in> E" using old[OF nl] cn by simp
      show "freeze (h ! m) \<or> m \<in> E" using old[OF ml] cm by simp
    qed }
qed

lemma same_frame_grows: "same_frame h h' \<Longrightarrow> grows h h'"
  by (rule growsI) (simp_all add: same_frame_def)

lemma visit_grows: "grows h (visit h n)"
  by (rule growsI) (simp_all add: visit_fields)

lemma expand_grows:
  assumes e: "expand h n = Inr h'" and n: "n < length h"
  shows "grows h h'"
proof (rule growsI)
  show "length h \<le> length h'" using expand_self(2)[OF e n] .
  show "parent (h' ! k) = parent (h ! k) \<and> freeze (h' ! k) = freeze (h ! k)"
    if "k < length h" for k
    using expand_old[OF e that] by simp
  show "\<not> freeze (h' ! k)" if "k < length h'" "length h \<le> k" for k
    using expand_new[OF e n that(2,1)] by simp
  show "p < length h'" if "k < length h'" "length h \<le> k" "parent (h' ! k) = Some p" for k p
  proof -
    have "parent (h' ! k) = Some n" using expand_new[OF e n that(2,1)] by simp
    then have "p = n" using that(3) by simp
    then show ?thesis using n expand_self(2)[OF e n] by simp
  qed
qed

lemma fresh_root_grows: "grows h (h @ [new_cnode g None])"
proof (rule growsI)
  show "length h \<le> length (h @ [new_cnode g None])" by simp
  show "parent ((h @ [new_cnode g None]) ! n) = parent (h ! n)
        \<and> freeze ((h @ [new_cnode g None]) ! n) = freeze (h ! n)" if "n < length h" for n
    using that by (simp add: nth_append)
  { fix n assume a: "n < length (h @ [new_cnode g None])" "length h \<le> n"
    then have "n = length h" by simp
    then have x: "(h @ [new_cnode g None]) ! n = new_cnode g None" by simp
    show "\<not> freeze ((h @ [new_cnode g None]) ! n)" unfolding x by (simp add: new_cnode_def)
    fix p assume "parent ((h @ [new_cnode g None]) ! n) = Some p"
    then have False unfolding x by (simp add: new_cnode_def)
    then show "p < length (h @ [new_cnode g None])" .. }
qed

lemma selection_loop_grows:
  "selection_loop h node = Some r \<Longrightarrow> r = Inr (h', f) \<Longrightarrow> grows h h'"
proof (induction arbitrary: h' f rule: selection_loop_induct)
  case (step sl h node r)
  show ?case
  proof (cases "is_terminal h node")
    case True
    with step(2,3) have "h' = h" by simp
    then show ?thesis by (simp add: grows_refl)
  next
    case False
    with step(2) have body: "(case selection_policy h node of
              Inl e \<Rightarrow> Some (Inl e)
            | Inr nxt \<Rightarrow> sl (visit h nxt) nxt) = Some r"
      by simp
    with step(3) obtain nxt where rec: "sl (visit h nxt) nxt = Some r"
      by (auto split: sum.splits)
    from step(1)[OF rec step(3)] have "grows (visit h nxt) h'" .
    with visit_grows show ?thesis by (rule grows_trans)
  qed
qed

lemma selection_phase_grows:
  assumes "selection_phase h r = Some (Inr (h', f))"
  shows "grows h h'"
proof -
  from assms have "selection_loop (visit h r) r = Some (Inr (h', f))"
    by (simp add: selection_phase_def)
  from selection_loop_grows[OF this refl] have "grows (visit h r) h'" .
  with visit_grows show ?thesis by (rule grows_trans)
qed

lemma expansion_grows:
  assumes "expansion h f = Some (Inr h')" and "f < length h"
  shows "grows h h'"
proof (cases "g_terminal (reference_node (h ! f))")
  case True
  with assms(1) have "set_as_solved h f = Some (Inr h')" by (simp add: expansion_def)
  then have "same_frame h h'" by (rule set_as_solved_same_frame)
  then show ?thesis by (rule same_frame_grows)
next
  case False
  with assms(1) have "expand h f = Inr h'" by (simp add: expansion_def)
  then show ?thesis using assms(2) by (rule expand_grows)
qed

text \<open>
  Root advancement: the logical root \<open>r\<close>, not frozen so far, is frozen, and its child
  \<open>r'\<close> takes its place.
\<close>

lemma chain_ok_advance:
  assumes ch: "chain_ok (insert r E) h" and nf: "\<not> freeze (h ! r)"
    and r': "r' < length h" and pr': "parent (h ! r') = Some r"
  shows "chain_ok (insert r' E) (h[r := (h ! r)\<lparr> freeze := True \<rparr>])
         \<and> \<not> freeze (h[r := (h ! r)\<lparr> freeze := True \<rparr>] ! r')"
proof -
  define h' where "h' = h[r := (h ! r)\<lparr> freeze := True \<rparr>]"
  have lr: "logical_root h r" using chain_ok_root[OF ch] by simp
  then have rl: "r < length h" by (simp add: logical_root_def)
  have len: "length h' = length h" by (simp add: h'_def)
  have par: "parent (h' ! k) = parent (h ! k)" if "k < length h" for k
    using that by (cases "k = r") (simp_all add: h'_def)
  have fr: "freeze (h' ! k) \<longleftrightarrow> freeze (h ! k) \<or> k = r" if "k < length h" for k
    using that by (cases "k = r") (simp_all add: h'_def)
  have no_child: False
    if "k < length h" "parent (h ! k) = Some r" "freeze (h ! k) \<or> k \<in> insert r E" for k
  proof -
    from that(3) consider "freeze (h ! k)" | "k \<in> insert r E" by blast
    then have "freeze (h ! r)"
    proof cases
      case 1
      then show ?thesis using chain_ok_parent[OF ch that(1,2)] by simp
    next
      case 2
      from chain_ok_root[OF ch this] show ?thesis
        using that(2) by (simp add: logical_root_def)
    qed
    with nf show False by simp
  qed
  have ne: "r' \<noteq> r" using no_child[OF r' pr'] by blast
  have nfr': "\<not> freeze (h ! r')" using no_child[OF r' pr'] by blast
  have cand: "freeze (h ! k) \<or> k \<in> insert r E"
    if "k < length h" "freeze (h' ! k) \<or> k \<in> insert r' E" "k \<noteq> r'" for k
    using that fr[OF that(1)] by blast
  have "chain_ok (insert r' E) h'"
  proof (rule chain_okI)
    { fix e assume e: "e \<in> insert r' E"
      show "logical_root h' e"
      proof (cases "e = r'")
        case True
        then show ?thesis using r' pr' par[OF r'] fr[OF rl] len by (simp add: logical_root_def)
      next
        case False
        then have "e \<in> insert r E" using e by simp
        from chain_ok_root[OF ch this]
        have el: "e < length h"
          and ep: "case parent (h ! e) of None \<Rightarrow> True | Some p \<Rightarrow> freeze (h ! p)"
          by (simp_all add: logical_root_def)
        show ?thesis
        proof (cases "parent (h ! e)")
          case None
          then show ?thesis using par[OF el] el len by (simp add: logical_root_def)
        next
          case (Some p)
          then have "freeze (h ! p)" using ep by simp
          moreover have "p < length h" using chain_ok_parent[OF ch el Some] by simp
          ultimately have "freeze (h' ! p)" using fr by simp
          then show ?thesis using par[OF el] el len Some by (simp add: logical_root_def)
        qed
      qed }
    { fix n p assume n: "n < length h'" and p: "parent (h' ! n) = Some p"
      have nl: "n < length h" using n len by simp
      have pn: "parent (h ! n) = Some p" using par[OF nl] p by simp
      from chain_ok_parent[OF ch nl pn]
      have pl: "p < length h" and up: "freeze (h ! n) \<longrightarrow> freeze (h ! p)" by simp_all
      show "p < length h'" using pl len by simp
      assume "freeze (h' ! n)"
      then consider "freeze (h ! n)" | "n = r" using fr[OF nl] by blast
      then have "freeze (h ! p)"
      proof cases
        case 1
        then show ?thesis using up by simp
      next
        case 2
        then show ?thesis using lr pn by (simp add: logical_root_def)
      qed
      then show "freeze (h' ! p)" using fr[OF pl] by simp }
    { fix n m p
      assume n: "n < length h'" and m: "m < length h'"
        and pn: "parent (h' ! n) = Some p" and pm: "parent (h' ! m) = Some p"
        and cn: "freeze (h' ! n) \<or> n \<in> insert r' E" and cm: "freeze (h' ! m) \<or> m \<in> insert r' E"
      have nl: "n < length h" and ml: "m < length h" using n m len by simp_all
      have pn0: "parent (h ! n) = Some p" and pm0: "parent (h ! m) = Some p"
        using par[OF nl] par[OF ml] pn pm by simp_all
      show "n = m"
      proof (cases "n = r'")
        case True
        then have pr: "p = r" using pn0 pr' by simp
        show ?thesis
        proof (rule ccontr)
          assume "n \<noteq> m"
          then have "m \<noteq> r'" using True by simp
          from cand[OF ml cm this] no_child[OF ml] pm0 pr show False by simp
        qed
      next
        case False
        note nr = this
        show ?thesis
        proof (cases "m = r'")
          case True
          then have pr: "p = r" using pm0 pr' by simp
          from cand[OF nl cn nr] no_child[OF nl] pn0 pr have False by simp
          then show ?thesis ..
        next
          case False
          from cand[OF nl cn nr] cand[OF ml cm False]
          show ?thesis using chain_ok_unique[OF ch nl ml pn0 pm0] by simp
        qed
      qed }
  qed
  moreover have "\<not> freeze (h' ! r')" using fr[OF r'] nfr' ne by simp
  ultimately show ?thesis unfolding h'_def by simp
qed

lemma chain_ok_fresh_root:
  assumes ch: "chain_ok E h" and r: "r < length h" and pr: "parent (h ! r) = None"
  shows "chain_ok (insert r E) h"
proof (rule chain_okI)
  show "logical_root h e" if "e \<in> insert r E" for e
  proof (cases "e = r")
    case True
    then show ?thesis using r pr by (simp add: logical_root_def)
  next
    case False
    then have "e \<in> E" using that by simp
    then show ?thesis by (rule chain_ok_root[OF ch])
  qed
  { fix n p assume n: "n < length h" and p: "parent (h ! n) = Some p"
    show "p < length h" using chain_ok_parent[OF ch n p] by simp
    show "freeze (h ! n) \<Longrightarrow> freeze (h ! p)" using chain_ok_parent[OF ch n p] by simp }
  { fix n m p
    assume n: "n < length h" and m: "m < length h"
      and pn: "parent (h ! n) = Some p" and pm: "parent (h ! m) = Some p"
      and cn: "freeze (h ! n) \<or> n \<in> insert r E" and cm: "freeze (h ! m) \<or> m \<in> insert r E"
    have "n \<noteq> r" "m \<noteq> r" using pn pm pr by auto
    then have "freeze (h ! n) \<or> n \<in> E" "freeze (h ! m) \<or> m \<in> E" using cn cm by simp_all
    then show "n = m" using chain_ok_unique[OF ch n m pn pm] by simp }
qed

lemma go_down_shape:
  assumes g: "go_down s r depth = Some (Inr (s', r', depth'))"
    and co: "counts_ordered (insert r E) (nodes s)" and r: "r < length (nodes s)"
  shows "\<exists>h1. same_frame (nodes s) h1 \<and> nodes s' = h1[r := (h1 ! r)\<lparr> freeze := True \<rparr>]
              \<and> r' < length h1 \<and> parent (h1 ! r') = Some r"
proof -
  from g obtain s1 where p: "pop_and_backpropagate (s\<lparr> eval_buffer := force_eval (eval_buffer s) \<rparr>)
        = Some (Inr s1)"
    and rest: "(let h = (nodes s1)[r := (nodes s1 ! r)\<lparr> freeze := True \<rparr>]
          in and_then (Some (children h r))
               (\<lambda>cs. and_then (Some (py_max (\<lambda>child. Inr (top_reward (h ! child))) cs))
                  (\<lambda>best. Some (Inr (s1\<lparr> nodes := h,
                                         ressource_distributor :=
                                           set_new_position (ressource_distributor s1) (depth + 1) \<rparr>,
                                      best, depth + 1))))) = Some (Inr (s', r', depth'))"
    unfolding go_down_def by (blast dest: and_then_Inr)
  define h where "h = (nodes s1)[r := (nodes s1 ! r)\<lparr> freeze := True \<rparr>]"
  from pop_and_backpropagate_frame[OF p] have sf: "same_frame (nodes s) (nodes s1)" by simp
  have co1: "counts_ordered (insert r E) (nodes s1)"
    using same_frame_counts_ordered[OF sf co] .
  have r1: "r < length (nodes s1)" using sf r by (simp add: same_frame_def)
  from freeze_inv[OF co1 r1]
  have coh: "counts_ordered (insert r E) h" by (simp add: h_def)
  have rh: "r < length h" using r1 by (simp add: h_def)
  from rest obtain cs where cs: "children h r = Inr cs"
    and best: "py_max (\<lambda>child. Inr (top_reward (h ! child))) cs = Inr r'"
    and s': "nodes s' = h"
    unfolding Let_def h_def[symmetric]
    by (auto dest!: and_then_Inr)
  from py_max_member[OF best] have "r' \<in> set cs" .
  from counts_ordered_child[OF coh rh children_Inr[OF cs] this]
  have rl: "r' < length h" and pp: "parent (h ! r') = Some r" by simp_all
  have "r' < length (nodes s1)" using rl by (simp add: h_def)
  moreover have "parent (nodes s1 ! r') = Some r"
    using pp rl by (cases "r' = r") (simp_all add: h_def)
  ultimately show ?thesis using sf s' h_def by blast
qed

lemma go_down_chain:
  assumes g: "go_down s r depth = Some (Inr (s', r', depth'))"
    and co: "counts_ordered (insert r E) (nodes s)"
    and ch: "chain_ok (insert r E) (nodes s)" and nf: "\<not> freeze (nodes s ! r)"
  shows "chain_ok (insert r' E) (nodes s') \<and> \<not> freeze (nodes s' ! r')"
proof -
  have r: "r < length (nodes s)"
    using chain_ok_root[OF ch, of r] by (simp add: logical_root_def)
  from go_down_shape[OF g co r] obtain h1 where
    sf: "same_frame (nodes s) h1" and s': "nodes s' = h1[r := (h1 ! r)\<lparr> freeze := True \<rparr>]"
    and r': "r' < length h1" and pr': "parent (h1 ! r') = Some r"
    by blast
  have ch1: "chain_ok (insert r E) h1"
    using ch same_frame_grows[OF sf] by (rule chain_ok_grows)
  have nf1: "\<not> freeze (h1 ! r)" using sf r nf by (simp add: same_frame_def)
  from chain_ok_advance[OF ch1 nf1 r' pr'] show ?thesis unfolding s' .
qed

lemma iteration_chain:
  assumes it: "iteration rc s r depth = Some (Inr (s', r', depth'))"
    and co: "counts_ordered (insert r E) (nodes s)"
    and ch: "chain_ok (insert r E) (nodes s)" and nf: "\<not> freeze (nodes s ! r)"
  shows "chain_ok (insert r' E) (nodes s') \<and> \<not> freeze (nodes s' ! r')"
proof -
  define s0 where "s0 = s\<lparr> ressource_distributor := consume_one_unit (ressource_distributor s) \<rparr>"
  have n0: "nodes s0 = nodes s" by (simp add: s0_def)
  have lr: "logical_root (nodes s) r" using chain_ok_root[OF ch] by simp
  then have rl: "r < length (nodes s)" by (simp add: logical_root_def)
  from it obtain h1 f h2 random_leaf k s1 down where
    sel: "selection_phase (nodes s0) r = Some (Inr (h1, f))"
    and ex: "expansion h1 f = Some (Inr h2)"
    and pb: "pop_and_backpropagate (s0\<lparr> eval_buffer := add (eval_buffer s0) f random_leaf,
                                   nodes := h2, draws := k \<rparr>) = Some (Inr s1)"
    and fin: "(if down then go_down s1 r depth else Some (Inr (s1, r, depth)))
                = Some (Inr (s', r', depth'))"
    unfolding iteration_def Let_def s0_def[symmetric]
    by (auto dest!: and_then_Inr)
  have rE: "r \<in> insert r E" by simp
  from selection_phase_inv[OF sel[unfolded n0] co lr rE]
  have c1: "counts_ordered (insert r E) h1" and f1: "f < length h1"
    by simp_all
  from expansion_inv[OF ex f1 c1]
  have c2: "counts_ordered (insert r E) h2" by simp
  from pop_and_backpropagate_frame[OF pb]
  have sf: "same_frame h2 (nodes s1)" by simp
  have c3: "counts_ordered (insert r E) (nodes s1)"
    using same_frame_counts_ordered[OF sf c2] .
  have g1: "grows (nodes s) h1" using selection_phase_grows[OF sel] n0 by simp
  have g2: "grows h1 h2" using ex f1 by (rule expansion_grows)
  have g3: "grows h2 (nodes s1)" using sf by (rule same_frame_grows)
  have g: "grows (nodes s) (nodes s1)"
    using g1 g2 g3 by (blast intro: grows_trans)
  have ch3: "chain_ok (insert r E) (nodes s1)" using ch g by (rule chain_ok_grows)
  have nf3: "\<not> freeze (nodes s1 ! r)" using grows_old[OF g rl] nf by simp
  show ?thesis
  proof (cases down)
    case True
    with fin have "go_down s1 r depth = Some (Inr (s', r', depth'))" by simp
    then show ?thesis using c3 ch3 nf3 by (rule go_down_chain)
  next
    case False
    with fin have "s' = s1" "r' = r" by simp_all
    with ch3 nf3 show ?thesis by simp
  qed
qed

text \<open>One pass of the loop, the loop, and the runs of \<open>search\<close>.\<close>

lemma iteration_inv:
  assumes it: "iteration rc s r depth = Some (Inr (s', r', depth'))"
    and co: "counts_ordered (insert r E) (nodes s)" and lr: "logical_root (nodes s) r"
  shows "counts_ordered (insert r' E) (nodes s') \<and> logical_root (nodes s') r'
         \<and> stable (nodes s) (nodes s')"
proof -
  define s0 where "s0 = s\<lparr> ressource_distributor := consume_one_unit (ressource_distributor s) \<rparr>"
  have n0: "nodes s0 = nodes s" by (simp add: s0_def)
  from it obtain h1 f h2 random_leaf k s1 down where
    sel: "selection_phase (nodes s0) r = Some (Inr (h1, f))"
    and ex: "expansion h1 f = Some (Inr h2)"
    and pb: "pop_and_backpropagate (s0\<lparr> eval_buffer := add (eval_buffer s0) f random_leaf,
                                   nodes := h2, draws := k \<rparr>) = Some (Inr s1)"
    and fin: "(if down then go_down s1 r depth else Some (Inr (s1, r, depth)))
                = Some (Inr (s', r', depth'))"
    unfolding iteration_def Let_def s0_def[symmetric]
    by (auto dest!: and_then_Inr)
  have rE: "r \<in> insert r E" by simp
  from selection_phase_inv[OF sel[unfolded n0] co lr rE]
  have c1: "counts_ordered (insert r E) h1" and st1: "stable (nodes s) h1" and f1: "f < length h1"
    by simp_all
  from expansion_inv[OF ex f1 c1]
  have c2: "counts_ordered (insert r E) h2" and st2: "stable h1 h2" by simp_all
  from pop_and_backpropagate_frame[OF pb]
  have sf: "same_frame h2 (nodes s1)" by simp
  have c3: "counts_ordered (insert r E) (nodes s1)"
    using same_frame_counts_ordered[OF sf c2] .
  have st3: "stable (nodes s) (nodes s1)"
    using st1 st2 same_frame_stable[OF sf] by (blast intro: stable_trans)
  have lr3: "logical_root (nodes s1) r"
    using stable_logical_root[OF co lr st3] .
  show ?thesis
  proof (cases down)
    case True
    with fin have g: "go_down s1 r depth = Some (Inr (s', r', depth'))" by simp
    have "r < length (nodes s1)" using lr3 by (simp add: logical_root_def)
    from go_down_inv[OF g c3 this]
    have "counts_ordered (insert r' E) (nodes s')" "stable (nodes s1) (nodes s')"
      "logical_root (nodes s') r'"
      by simp_all
    then show ?thesis using st3 by (blast intro: stable_trans)
  next
    case False
    with fin have "s' = s1" "r' = r" by simp_all
    with c3 st3 lr3 show ?thesis by simp
  qed
qed

lemma search_loop_inv:
  "search_loop rc s r depth = Some res \<Longrightarrow> res = Inr s'
     \<Longrightarrow> counts_ordered (insert r E) (nodes s) \<Longrightarrow> chain_ok (insert r E) (nodes s)
     \<Longrightarrow> \<not> freeze (nodes s ! r)
     \<Longrightarrow> (\<exists>r'. counts_ordered (insert r' E) (nodes s') \<and> chain_ok (insert r' E) (nodes s'))
         \<and> stable (nodes s) (nodes s')"
proof (induction arbitrary: s' rule: search_loop_induct)
  case (step sl rc s r depth res)
  show ?case
  proof (cases "\<not> g_terminal (reference_node (nodes s ! r)) \<and> \<not> solved (nodes s ! r)
                 \<and> still_has_ressources (ressource_distributor s)")
    case False
    with step(2,3) have "s' = s" by auto
    with step(4,5) show ?thesis by (auto simp: stable_refl)
  next
    case True
    with step(2) have body: "(case iteration rc s r depth of
              None \<Rightarrow> None
            | Some (Inl e) \<Rightarrow> Some (Inl e)
            | Some (Inr (s1, r1, depth1)) \<Rightarrow> sl rc s1 r1 depth1) = Some res"
      by simp
    with step(3) obtain s1 r1 depth1 where
      it: "iteration rc s r depth = Some (Inr (s1, r1, depth1))"
      and rec: "sl rc s1 r1 depth1 = Some res"
      by (auto split: option.splits sum.splits)
    have lr: "logical_root (nodes s) r" using chain_ok_root[OF step(5)] by simp
    from iteration_inv[OF it step(4) lr]
    have i: "counts_ordered (insert r1 E) (nodes s1)" "stable (nodes s) (nodes s1)"
      by simp_all
    from iteration_chain[OF it step(4,5,6)]
    have j: "chain_ok (insert r1 E) (nodes s1)" "\<not> freeze (nodes s1 ! r1)"
      by simp_all
    from step(1)[OF rec step(3) i(1) j]
    have "\<exists>r'. counts_ordered (insert r' E) (nodes s') \<and> chain_ok (insert r' E) (nodes s')"
      "stable (nodes s1) (nodes s')"
      by simp_all
    with i(2) show ?thesis by (blast intro: stable_trans)
  qed
qed

lemma fresh_root_inv:
  assumes "counts_ordered E h"
  shows "counts_ordered E (h @ [new_cnode g None]) \<and> logical_root (h @ [new_cnode g None]) (length h)
         \<and> stable h (h @ [new_cnode g None])"
proof -
  define h' where "h' = h @ [new_cnode g None]"
  have old: "h' ! k = h ! k" if "k < length h" for k
    using that by (simp add: h'_def nth_append)
  have new: "h' ! length h = new_cnode g None" by (simp add: h'_def)
  have len: "length h' = Suc (length h)" by (simp add: h'_def)
  have co': "counts_ordered E h'"
  proof (rule counts_orderedI)
    fix k assume k: "k < length h'"
    then consider "k < length h" | "k = length h" using len by linarith
    note cases = this
    show "0 \<le> count (h' ! k)"
      using cases by cases (simp_all add: old new counts_ordered_count[OF assms] new_cnode_def)
    { fix p assume pk: "parent (h' ! k) = Some p"
      have kl: "k < length h"
        using cases pk by cases (simp_all add: new new_cnode_def)
      then have pk0: "parent (h ! k) = Some p" using pk old by simp
      from counts_ordered_parent[OF assms kl pk0]
      have pl: "p < length h" and ok: "pair_ok E h k p" by simp_all
      show "p < length h'" using pl len by simp
      show "pair_ok E h' k p"
        using ok by (rule pair_ok_transfer) (simp_all add: old[OF pl] old[OF kl]) }
    { fix cs c assume cs: "children_field (h' ! k) = Some cs" and c: "c \<in> set cs"
      have kl: "k < length h"
        using cases cs by cases (simp_all add: new new_cnode_def)
      then have "children_field (h ! k) = Some cs" using cs old by simp
      from counts_ordered_child[OF assms kl this c]
      have cl: "c < length h" and "parent (h ! c) = Some k" by simp_all
      then show "c < length h' \<and> parent (h' ! c) = Some k" using old[OF cl] len by simp }
  qed
  have "logical_root h' (length h)"
    by (simp add: logical_root_def len new new_cnode_def)
  moreover have "stable h h'"
    unfolding stable_def using old len by simp
  ultimately show ?thesis using co' unfolding h'_def by simp
qed

lemma single_search_inv:
  assumes ss: "single_search rc s tree_root = Some (Inr (s', r))"
    and co: "counts_ordered E (nodes s)" and ch: "chain_ok E (nodes s)"
  shows "(\<exists>r'. counts_ordered (insert r' E) (nodes s') \<and> chain_ok (insert r' E) (nodes s'))
         \<and> stable (nodes s) (nodes s')"
proof -
  define s0 where "s0 = s\<lparr> nodes := nodes s @ [new_cnode tree_root None] \<rparr>"
  define r0 where "r0 = length (nodes s)"
  from ss obtain s1 where loop: "search_loop rc s0 r0 1 = Some (Inr s1)"
    and s': "s' = s1\<lparr> eval_buffer := force_eval (eval_buffer s1) \<rparr>"
    unfolding single_search_def Let_def s0_def[symmetric] r0_def[symmetric]
    by (auto dest!: and_then_Inr)
  from fresh_root_inv[OF co, of tree_root]
  have f: "counts_ordered E (nodes s0)" "stable (nodes s) (nodes s0)"
    by (simp_all add: s0_def)
  have c0: "counts_ordered (insert r0 E) (nodes s0)"
    using f(1) by (rule counts_ordered_mono) blast
  have new: "nodes s0 ! r0 = new_cnode tree_root None" "r0 < length (nodes s0)"
    by (simp_all add: s0_def r0_def)
  have "chain_ok E (nodes s0)"
    using ch fresh_root_grows[of "nodes s" tree_root] unfolding s0_def
    by (simp add: chain_ok_grows)
  then have ch0: "chain_ok (insert r0 E) (nodes s0)"
    using new by (intro chain_ok_fresh_root) (simp_all add: new_cnode_def)
  have nf0: "\<not> freeze (nodes s0 ! r0)" using new by (simp add: new_cnode_def)
  from search_loop_inv[OF loop refl c0 ch0 nf0]
  have "\<exists>r'. counts_ordered (insert r' E) (nodes s1) \<and> chain_ok (insert r' E) (nodes s1)"
    "stable (nodes s0) (nodes s1)"
    by simp_all
  moreover have "nodes s' = nodes s1" using s' by simp
  ultimately show ?thesis
    using f(2) by (auto intro: stable_trans)
qed

lemma restarts_inv:
  "restarts rc tree_root i s last_root = Some (Inr (s', last_root')) \<Longrightarrow> finite E
     \<Longrightarrow> counts_ordered E (nodes s) \<Longrightarrow> chain_ok E (nodes s)
     \<Longrightarrow> \<exists>E'. finite E' \<and> card E' \<le> card E + i \<and> chain_ok E' (nodes s')
              \<and> counts_ordered E' (nodes s')"
proof (induction i arbitrary: s last_root E)
  case 0
  then show ?case by auto
next
  case (Suc i)
  define sr where "sr = s\<lparr> ressource_distributor := reset (ressource_distributor s) \<rparr>"
  from Suc.prems(1) obtain s1 r where ss: "single_search rc sr tree_root = Some (Inr (s1, r))"
    and rest: "restarts rc tree_root i s1 (Some r) = Some (Inr (s', last_root'))"
    unfolding restarts.simps sr_def[symmetric]
    by (auto dest!: and_then_Inr)
  have nsr: "nodes sr = nodes s" by (simp add: sr_def)
  have co: "counts_ordered E (nodes sr)" using Suc.prems(3) nsr by simp
  have ch: "chain_ok E (nodes sr)" using Suc.prems(4) nsr by simp
  from single_search_inv[OF ss co ch] obtain r' where
    c1: "counts_ordered (insert r' E) (nodes s1)" and l1: "chain_ok (insert r' E) (nodes s1)"
    by blast
  have fin: "finite (insert r' E)" using Suc.prems(2) by simp
  from Suc.IH[OF rest fin c1 l1] obtain E' where
    E': "finite E'" "card E' \<le> card (insert r' E) + i"
      "chain_ok E' (nodes s')" "counts_ordered E' (nodes s')"
    by blast
  have "card (insert r' E) \<le> Suc (card E)"
    using Suc.prems(2) by (simp add: card_insert_if)
  with E' show ?case by (intro exI[of _ E']) simp
qed

lemma search_inv:
  assumes "search rc average_depth eb strat n_restarts tree_root walks
             = Some (Inr (text, score, root_ref, s'))"
  shows "\<exists>E. finite E \<and> card E \<le> nat n_restarts \<and> chain_ok E (nodes s')
             \<and> counts_ordered E (nodes s')"
proof -
  from assms obtain d last_root where
    r: "restarts rc tree_root (nat n_restarts)
          \<lparr> eval_buffer = eb, ressource_distributor = d, nodes = [], draws = 0 \<rparr> None
        = Some (Inr (s', last_root))"
    unfolding search_def
    by (auto dest!: and_then_Inr split: if_splits option.splits)
  have "counts_ordered {} (nodes \<lparr> eval_buffer = eb, ressource_distributor = d, nodes = [],
                                    draws = 0 \<rparr>)"
    by (simp add: counts_ordered_def)
  moreover have "chain_ok {} (nodes \<lparr> eval_buffer = eb, ressource_distributor = d, nodes = [],
                                    draws = 0 \<rparr>)"
    by (simp add: chain_ok_def)
  ultimately show ?thesis using restarts_inv[OF r, of "{}"] by simp
qed

section \<open>The search engine\<close>

text \<open>
  C1. The claim asks that the results of the last forced flush be backpropagated before
  \<open>single_search\<close> returns. On the search below (one walk, a buffer of size 2) the
  loop ends with the leaf \<open>a\<close> still pending; the last \<open>force_eval\<close> scores it, and the
  run returns with the triple of reward one half left in the results and the root holding
  the statistics of a node that never received a reward. Backpropagating what is left
  would have given the root the sum one half.
\<close>

theorem final_flush_not_backpropagated:
  "search first_child 3 (evalbuffer_init 2 half_scorer) ''ALL_FROM_ROOT'' 1 g_pair 1
     = Some (Inr (''a'', 1 / 2, 0, end_lazy))
   \<and> results (eval_buffer end_lazy) = [(1 / 2, g_leaf_a, 0)]
   \<and> sum_rewards (nodes end_lazy ! 0) = 0
   \<and> sum_of_square_rewards (nodes end_lazy ! 0) = 0
   \<and> top_reward (nodes end_lazy ! 0) = - 1
   \<and> top_leaf_node (nodes end_lazy ! 0) = None
   \<and> map_option (\<lambda>h. sum_rewards (h ! 0))
         (backpropagate_all (nodes end_lazy) (results (eval_buffer end_lazy))) = Some (1 / 2)"
proof -
  have "map_option (\<lambda>h. sum_rewards (h ! 0))
         (backpropagate_all (nodes end_lazy) (results (eval_buffer end_lazy))) = Some (1 / 2)"
    by (simp add: end_lazy_def new_cnode_def backpropagate_unfrozen Let_def power2_eq_square)
  then show ?thesis
    using lazy_run by (simp add: end_lazy_def new_cnode_def)
qed

text \<open>
  C2, counterexample. On the search below the root is advanced to its child after two
  walks and frozen; the two walks that follow start at the child. At the end the child,
  object 1, has been visited three times and its parent, object 0, twice.
\<close>

theorem advanced_root_outcounts_parent_counterexample:
  "search first_child 3 (evalbuffer_init 1 half_scorer) ''UNIFORM'' 1 g_chain 4
     = Some (Inr (''a'', 1 / 2, 0, uniform_end))
   \<and> parent (nodes uniform_end ! 1) = Some 0
   \<and> count (nodes uniform_end ! 0) = 2
   \<and> count (nodes uniform_end ! 1) = 3
   \<and> \<not> count (nodes uniform_end ! 0) \<ge> count (nodes uniform_end ! 1)"
  using uniform_run by (simp add: uniform_end_def new_cnode_def)

text \<open>
  C2, amended. Call advanced root a counter node whose parent is frozen and that is
  itself frozen (a logical root of the past) or the logical root of a run of
  \<open>single_search\<close> (the set \<open>E\<close> below; one object for each restart). At every
  observation point of a search every counter node has a count that is not negative,
  and a count at most that of its parent unless it is an advanced root
  (\<open>counts_ordered\<close>); a node has at most one child that is an advanced root, and the
  frozen nodes are closed under parent (\<open>chain_ok\<close>); a pass of the loop decreases no
  count (\<open>stable\<close>). First conjunct: a pass of the loop of \<open>single_search\<close> started at
  the logical root \<open>r\<close>, not frozen, keeps the ordering and the chains, with the logical
  root \<open>r1\<close> it returns, not frozen, in the place of \<open>r\<close>. Second conjunct: when
  \<open>search\<close> returns, the ordering and the chains hold with a set of at most
  \<open>nb_random_restarts\<close> logical roots.
\<close>

theorem counts_ordered_except_advanced_roots:
  "(counts_ordered (insert r E) (nodes s) \<and> chain_ok (insert r E) (nodes s)
      \<and> \<not> freeze (nodes s ! r)
      \<and> iteration rc s r depth = Some (Inr (s1, r1, depth1))
    \<longrightarrow> counts_ordered (insert r1 E) (nodes s1) \<and> chain_ok (insert r1 E) (nodes s1)
        \<and> \<not> freeze (nodes s1 ! r1)
        \<and> stable (nodes s) (nodes s1))
   \<and> (search rc average_depth eb strat n_restarts tree_root walks
         = Some (Inr (text, score, root_ref, s'))
    \<longrightarrow> (\<exists>E'. finite E' \<and> card E' \<le> nat n_restarts
              \<and> chain_ok E' (nodes s') \<and> counts_ordered E' (nodes s')))"
proof (intro conjI impI)
  assume a: "counts_ordered (insert r E) (nodes s) \<and> chain_ok (insert r E) (nodes s)
      \<and> \<not> freeze (nodes s ! r)
      \<and> iteration rc s r depth = Some (Inr (s1, r1, depth1))"
  then have it: "iteration rc s r depth = Some (Inr (s1, r1, depth1))"
    and co: "counts_ordered (insert r E) (nodes s)"
    and ch: "chain_ok (insert r E) (nodes s)" and nf: "\<not> freeze (nodes s ! r)"
    by simp_all
  have lr: "logical_root (nodes s) r" using chain_ok_root[OF ch] by simp
  from iteration_inv[OF it co lr]
  show "counts_ordered (insert r1 E) (nodes s1)" "stable (nodes s) (nodes s1)"
    by simp_all
  from iteration_chain[OF it co ch nf]
  show "chain_ok (insert r1 E) (nodes s1)" "\<not> freeze (nodes s1 ! r1)"
    by simp_all
next
  assume "search rc average_depth eb strat n_restarts tree_root walks
         = Some (Inr (text, score, root_ref, s'))"
  then show "\<exists>E'. finite E' \<and> card E' \<le> nat n_restarts
              \<and> chain_ok E' (nodes s') \<and> counts_ordered E' (nodes s')"
    by (rule search_inv)
qed

theorem counts_ordered_except_advanced_roots_witness:
  "counts_ordered (insert 0 {}) (nodes uniform_start)
   \<and> chain_ok (insert 0 {}) (nodes uniform_start)
   \<and> \<not> freeze (nodes uniform_start ! 0)
   \<and> iteration first_child uniform_start 0 1 = Some (Inr (uniform_first, 0, 1))
   \<and> counts_ordered (insert 0 {}) (nodes uniform_first)
   \<and> chain_ok (insert 0 {}) (nodes uniform_first)
   \<and> \<not> freeze (nodes uniform_first ! 0)
   \<and> stable (nodes uniform_start) (nodes uniform_first)
   \<and> search first_child 3 (evalbuffer_init 1 half_scorer) ''UNIFORM'' 1 g_chain 4
        = Some (Inr (''a'', 1 / 2, 0, uniform_end))
   \<and> (\<exists>E'. finite E' \<and> card E' \<le> nat 1
              \<and> chain_ok E' (nodes uniform_end) \<and> counts_ordered E' (nodes uniform_end))"
proof -
  have h: "counts_ordered (insert 0 {}) (nodes uniform_start)"
    "chain_ok (insert 0 {}) (nodes uniform_start)"
    "\<not> freeze (nodes uniform_start ! 0)"
    by (simp_all add: uniform_start_def counts_ordered_def node_ok_def pair_ok_def
        chain_ok_def logical_root_def new_cnode_def)
  note t = counts_ordered_except_advanced_roots
             [of 0 "{}" uniform_start first_child 1 uniform_first 0 1
                 3 "evalbuffer_init 1 half_scorer" "''UNIFORM''" 1 g_chain 4
                 "''a''" "1 / 2" 0 uniform_end]
  from t h uniform_first_pass
  have "counts_ordered (insert 0 {}) (nodes uniform_first)
        \<and> chain_ok (insert 0 {}) (nodes uniform_first)
        \<and> \<not> freeze (nodes uniform_first ! 0)
        \<and> stable (nodes uniform_start) (nodes uniform_first)"
    by blast
  moreover from t uniform_run
  have "\<exists>E'. finite E' \<and> card E' \<le> nat 1
              \<and> chain_ok E' (nodes uniform_end) \<and> counts_ordered E' (nodes uniform_end)"
    by blast
  ultimately show ?thesis
    using h uniform_first_pass uniform_run by blast
qed

end
